theory Spec2Isabelle
  imports Main "HOL-Library.Word"
begin

unbundle bit_operations_syntax

section \<open>Conventions\<close>

text \<open>
  The development embeds two pieces of the read path: the batch context of
  \<^verbatim>\<open>MultiGetContext\<close> with its \<^verbatim>\<open>Range\<close> and \<^verbatim>\<open>Range::Iterator\<close> classes, and
  the request coordinator of \<^verbatim>\<open>AsyncFileReader\<close>.

  Objects live at addresses; a pointer is an address, and a store maps every address to
  the object found there. C++ member names end in an underscore, which is not a legal
  end of an Isabelle name, so each field carries the initial of its class after the
  underscore: \<open>end_r\<close> is \<^verbatim>\<open>Range::end_\<close>, \<open>index_i\<close> is \<^verbatim>\<open>Iterator::index_\<close>, \<open>value_mask_c\<close> is
  \<^verbatim>\<open>MultiGetContext::value_mask_\<close>, \<open>num_reqs_a\<close> is \<^verbatim>\<open>ReadAwaiter::num_reqs_\<close> and
  \<open>num_reqs_f\<close> is \<^verbatim>\<open>AsyncFileReader::num_reqs_\<close>.

  Behaviour that C++ leaves undefined is a \<open>fault\<close> value: a shift of a 64-bit operand
  by 64 or more, a dereference of a null pointer, an index past the size of a vector,
  a placement past the end of a buffer.
  A loop that follows pointers takes fuel, and running out of it is a fault too.
  Sizes and indices (\<^verbatim>\<open>size_t\<close>) are natural numbers: no claim depends on their
  wrap-around at \<open>2 ^ 64\<close>.
\<close>

datatype fault = ShiftOverflow | NullDeref | OutOfBounds | OutOfFuel

type_synonym addr = nat

text \<open>\<^verbatim>\<open>1ull << n\<close>: defined for \<open>n < 64\<close> only.\<close>

definition shl1 :: "nat \<Rightarrow> fault + 64 word" where
  "shl1 n = (if n < 64 then Inr (push_bit n 1) else Inl ShiftOverflow)"

section \<open>MultiGetContext\<close>

subsection \<open>Data\<close>

text \<open>
  The lookup keys are built in the memory behind \<^verbatim>\<open>lookup_key_ptr_\<close>. That pointer is
  either the inline member \<^verbatim>\<open>lookup_key_buf\<close> of the context at a given address, which
  has room for \<open>MAX_KEYS_ON_STACK\<close> lookup keys, or an array on the heap.
  A slot \<open>(p, i)\<close> is the address \<^verbatim>\<open>&p[i]\<close>.
\<close>

datatype region = lookup_key_buf addr | heap_array addr

type_synonym slot = "region \<times> nat"

definition MAX_KEYS_ON_STACK :: nat where
  "MAX_KEYS_ON_STACK = 32"

text \<open>The slots that lie inside the inline buffer of a context: its elements
  \<open>0, \<dots>, MAX_KEYS_ON_STACK - 1\<close>.\<close>

fun slot_in_lookup_key_buf :: "slot \<Rightarrow> bool" where
  "slot_in_lookup_key_buf (lookup_key_buf c, i) = (i < MAX_KEYS_ON_STACK)"
| "slot_in_lookup_key_buf (heap_array a, i) = False"

type_synonym SequenceNumber = nat

text \<open>Modelled from the spec: the class \<^verbatim>\<open>LookupKey\<close> of \<^verbatim>\<open>db/lookup_key.h\<close> is not among the
  sources. A lookup key is the internal lookup form derived from a user key and the
  read point, kept here as the two arguments of \<^verbatim>\<open>LookupKey(user_key, snapshot)\<close>, and the
  two slices a \<^verbatim>\<open>KeyContext\<close> takes from it (\<^verbatim>\<open>user_key()\<close>, \<^verbatim>\<open>internal_key()\<close>) are views of
  the slot that holds it.\<close>

datatype LookupKey = LookupKey string SequenceNumber

datatype Slice = Empty_Slice | user_key slot | internal_key slot

text \<open>Of \<^verbatim>\<open>KeyContext\<close> the constructor of the batch reads \<^verbatim>\<open>key\<close> and writes \<^verbatim>\<open>lkey\<close>,
  \<^verbatim>\<open>ukey\<close> and \<^verbatim>\<open>ikey\<close>; the other members are left to the record's extension.\<close>

record KeyContext =
  key_k :: string
  lkey_k :: "slot option"
  ukey_k :: Slice
  ikey_k :: Slice

record MultiGetContext =
  sorted_keys_c :: "nat \<Rightarrow> addr"
  num_keys_c :: nat
  value_mask_c :: "64 word"
  lookup_key_ptr_c :: region

record Range =
  ctx_r :: addr
  start_r :: nat
  end_r :: nat
  skip_mask_r :: "64 word"

record Iterator =
  range_i :: addr
  ctx_i :: addr
  index_i :: nat

record mheap =
  contexts :: "addr \<Rightarrow> MultiGetContext"
  ranges :: "addr \<Rightarrow> Range"
  key_contexts :: "addr \<Rightarrow> KeyContext"
  lookup_keys :: "slot \<rightharpoonup> LookupKey"

subsection \<open>Constructor and destructor\<close>

text \<open>One round of the constructor's loop, for the position \<open>iter\<close> of the batch:
  the placement \<^verbatim>\<open>new (&lookup_key_ptr_[index]) LookupKey(*key, snapshot)\<close>, the three
  assignments to the \<^verbatim>\<open>KeyContext\<close> that \<^verbatim>\<open>sorted_keys_[iter]\<close> points to, and \<^verbatim>\<open>index++\<close>.
  The array \<^verbatim>\<open>sorted_keys\<close> is a pointer without a length, so it is a function from
  positions to the addresses of the key contexts.

  \<^verbatim>\<open>lookup_key_buf\<close> has \<open>MAX_KEYS_ON_STACK\<close> elements and is declared right before
  \<^verbatim>\<open>sorted_keys_\<close>, \<^verbatim>\<open>num_keys_\<close>, \<^verbatim>\<open>value_mask_\<close> and \<^verbatim>\<open>lookup_key_ptr_\<close>. A placement at an
  element past the last one writes over these members, which the loop goes on to read:
  it is undefined, and the round ends in the fault \<open>OutOfBounds\<close>. So does a placement
  behind a pointer to the heap, since nothing allocates an array there. A round that
  does not fault has \<open>index < MAX_KEYS_ON_STACK\<close>, so \<^verbatim>\<open>int index\<close> stays far from the end
  of its type and is a natural number here.\<close>

definition ctor_body ::
  "addr \<Rightarrow> SequenceNumber \<Rightarrow> nat \<Rightarrow> nat \<times> mheap \<Rightarrow> fault + nat \<times> mheap" where
  "ctor_body this snapshot iter = (\<lambda>(index, h).
     (let c = contexts h this;
          kc = sorted_keys_c c iter;
          sl = (lookup_key_ptr_c c, index)
      in if slot_in_lookup_key_buf sl then
           (let h1 = h\<lparr>lookup_keys := (lookup_keys h)(sl \<mapsto> LookupKey (key_k (key_contexts h kc)) snapshot)\<rparr>;
                h2 = h1\<lparr>key_contexts := (key_contexts h1)(kc := (key_contexts h1 kc)\<lparr>lkey_k := Some sl\<rparr>)\<rparr>;
                h3 = h2\<lparr>key_contexts := (key_contexts h2)(kc := (key_contexts h2 kc)\<lparr>ukey_k := user_key sl\<rparr>)\<rparr>;
                h4 = h3\<lparr>key_contexts := (key_contexts h3)(kc := (key_contexts h3 kc)\<lparr>ikey_k := internal_key sl\<rparr>)\<rparr>
            in Inr (index + 1, h4))
         else Inl OutOfBounds))"

text \<open>The loop \<^verbatim>\<open>for (size_t iter = 0; iter != num_keys_; ++iter)\<close> over the positions
  \<open>iters\<close>, up to the first round that faults.\<close>

fun ctor_loop ::
  "addr \<Rightarrow> SequenceNumber \<Rightarrow> nat list \<Rightarrow> nat \<times> mheap \<Rightarrow> fault + nat \<times> mheap" where
  "ctor_loop this snapshot [] st = Inr st"
| "ctor_loop this snapshot (iter # iters) st =
     (case ctor_body this snapshot iter st of
        Inl x \<Rightarrow> Inl x
      | Inr st' \<Rightarrow> ctor_loop this snapshot iters st')"

text \<open>\<^verbatim>\<open>MultiGetContext(sorted_keys, num_keys, snapshot)\<close>, building the object at \<open>this\<close>.
  The member initialisers come first, then the loop over \<open>0, \<dots>, num_keys - 1\<close>.
  There is no test of \<open>num_keys\<close>, no \<^verbatim>\<open>assert\<close> and no other exit: the constructor
  either completes or runs into the undefined placement.\<close>

definition ctor_init :: "mheap \<Rightarrow> addr \<Rightarrow> (nat \<Rightarrow> addr) \<Rightarrow> nat \<Rightarrow> mheap" where
  "ctor_init h this sorted_keys num_keys =
     h\<lparr>contexts := (contexts h)(this :=
         \<lparr>sorted_keys_c = sorted_keys, num_keys_c = num_keys, value_mask_c = 0,
          lookup_key_ptr_c = lookup_key_buf this\<rparr>)\<rparr>"

definition MultiGetContext_ctor ::
  "mheap \<Rightarrow> addr \<Rightarrow> (nat \<Rightarrow> addr) \<Rightarrow> nat \<Rightarrow> SequenceNumber \<Rightarrow> fault + mheap" where
  "MultiGetContext_ctor h this sorted_keys num_keys snapshot =
     (case ctor_loop this snapshot [0..<num_keys] (0, ctor_init h this sorted_keys num_keys) of
        Inl x \<Rightarrow> Inl x
      | Inr (index, h') \<Rightarrow> Inr h')"

text \<open>\<^verbatim>\<open>~MultiGetContext()\<close>: the arrays handed to \<^verbatim>\<open>delete[]\<close>.\<close>

definition MultiGetContext_dtor :: "mheap \<Rightarrow> addr \<Rightarrow> region list" where
  "MultiGetContext_dtor h this =
     (if lookup_key_ptr_c (contexts h this) \<noteq> lookup_key_buf this
      then [lookup_key_ptr_c (contexts h this)] else [])"

subsection \<open>Range and Iterator\<close>

text \<open>The private constructor \<^verbatim>\<open>Range(ctx, num_keys)\<close> and \<^verbatim>\<open>GetMultiGetRange()\<close>.\<close>

definition Range_ctor :: "addr \<Rightarrow> nat \<Rightarrow> Range" where
  "Range_ctor ctx num_keys = \<lparr>ctx_r = ctx, start_r = 0, end_r = num_keys, skip_mask_r = 0\<rparr>"

definition GetMultiGetRange :: "mheap \<Rightarrow> addr \<Rightarrow> Range" where
  "GetMultiGetRange h this = Range_ctor this (num_keys_c (contexts h this))"

text \<open>\<^verbatim>\<open>Range(mget_range, first, last)\<close>; the parent is passed by reference, and \<open>lst\<close> is the
  parameter \<^verbatim>\<open>last\<close>.\<close>

definition Range_sub :: "mheap \<Rightarrow> addr \<Rightarrow> Iterator \<Rightarrow> Iterator \<Rightarrow> Range" where
  "Range_sub h mget_range first lst =
     \<lparr>ctx_r = ctx_r (ranges h mget_range), start_r = index_i first, end_r = index_i lst,
      skip_mask_r = skip_mask_r (ranges h mget_range)\<rparr>"

text \<open>A range returned by value is stored in a variable of the caller.\<close>

definition store_range :: "mheap \<Rightarrow> addr \<Rightarrow> Range \<Rightarrow> mheap" where
  "store_range h a r = h\<lparr>ranges := (ranges h)(a := r)\<rparr>"

text \<open>The loop of the iterator's constructor:
  \<^verbatim>\<open>while (index_ < range_->end_ && (1ull << index_) & (range_->ctx_->value_mask_ | range_->skip_mask_)) index_++;\<close>
  The shift is evaluated only when the first conjunct holds.\<close>

function skip_loop :: "mheap \<Rightarrow> addr \<Rightarrow> nat \<Rightarrow> fault + nat" where
  "skip_loop h rng index =
     (if index < end_r (ranges h rng) then
        (case shl1 index of
           Inl e \<Rightarrow> Inl e
         | Inr b \<Rightarrow>
             if b AND (value_mask_c (contexts h (ctx_r (ranges h rng))) OR skip_mask_r (ranges h rng)) \<noteq> 0
             then skip_loop h rng (index + 1)
             else Inr index)
      else Inr index)"
  by pat_completeness auto
termination
  by (relation "measure (\<lambda>(h, rng, index). end_r (ranges h rng) - index)") auto

declare skip_loop.simps [simp del]

definition Iterator_ctor :: "mheap \<Rightarrow> addr \<Rightarrow> nat \<Rightarrow> fault + Iterator" where
  "Iterator_ctor h rng index =
     (case skip_loop h rng index of
        Inl e \<Rightarrow> Inl e
      | Inr i \<Rightarrow> Inr \<lparr>range_i = rng, ctx_i = ctx_r (ranges h rng), index_i = i\<rparr>)"

text \<open>\<^verbatim>\<open>operator++\<close>:
  \<^verbatim>\<open>while (++index_ < range_->end_ && (1ull << index_) & (range_->ctx_->value_mask_ | range_->skip_mask_)) ;\<close>
  The argument is the index before the increment of the condition.\<close>

function incr_loop :: "mheap \<Rightarrow> addr \<Rightarrow> nat \<Rightarrow> fault + nat" where
  "incr_loop h rng index =
     (if index + 1 < end_r (ranges h rng) then
        (case shl1 (index + 1) of
           Inl e \<Rightarrow> Inl e
         | Inr b \<Rightarrow>
             if b AND (value_mask_c (contexts h (ctx_r (ranges h rng))) OR skip_mask_r (ranges h rng)) \<noteq> 0
             then incr_loop h rng (index + 1)
             else Inr (index + 1))
      else Inr (index + 1))"
  by pat_completeness auto
termination
  by (relation "measure (\<lambda>(h, rng, index). end_r (ranges h rng) - index)") auto

declare incr_loop.simps [simp del]

definition Iterator_incr :: "mheap \<Rightarrow> Iterator \<Rightarrow> fault + Iterator" where
  "Iterator_incr h it =
     (case incr_loop h (range_i it) (index_i it) of
        Inl e \<Rightarrow> Inl e
      | Inr i \<Rightarrow> Inr (it\<lparr>index_i := i\<rparr>))"

text \<open>\<^verbatim>\<open>operator==\<close> and \<^verbatim>\<open>operator!=\<close> compare the positions only.\<close>

definition Iterator_eq :: "Iterator \<Rightarrow> Iterator \<Rightarrow> bool" where
  "Iterator_eq it other = (index_i it = index_i other)"

definition Iterator_neq :: "Iterator \<Rightarrow> Iterator \<Rightarrow> bool" where
  "Iterator_neq it other = (index_i it \<noteq> index_i other)"

definition Range_begin :: "mheap \<Rightarrow> addr \<Rightarrow> fault + Iterator" where
  "Range_begin h this = Iterator_ctor h this (start_r (ranges h this))"

definition Range_end :: "mheap \<Rightarrow> addr \<Rightarrow> fault + Iterator" where
  "Range_end h this = Iterator_ctor h this (end_r (ranges h this))"

text \<open>\<^verbatim>\<open>empty()\<close>:
  \<^verbatim>\<open>(((1ull << end_) - 1) & ~((1ull << start_) - 1) & ~ctx_->value_mask_ & ~skip_mask_) == 0\<close>\<close>

definition Range_empty :: "mheap \<Rightarrow> addr \<Rightarrow> fault + bool" where
  "Range_empty h this =
     (case shl1 (end_r (ranges h this)) of
        Inl e \<Rightarrow> Inl e
      | Inr hi \<Rightarrow>
          (case shl1 (start_r (ranges h this)) of
             Inl e \<Rightarrow> Inl e
           | Inr lo \<Rightarrow>
               Inr (((hi - 1) AND NOT (lo - 1)
                     AND NOT (value_mask_c (contexts h (ctx_r (ranges h this))))
                     AND NOT (skip_mask_r (ranges h this))) = 0)))"

text \<open>\<^verbatim>\<open>SkipKey(iter)\<close>: \<^verbatim>\<open>skip_mask_ |= 1ull << iter.index_\<close>\<close>

definition SkipKey :: "mheap \<Rightarrow> addr \<Rightarrow> Iterator \<Rightarrow> fault + mheap" where
  "SkipKey h this iter =
     (case shl1 (index_i iter) of
        Inl e \<Rightarrow> Inl e
      | Inr b \<Rightarrow>
          Inr (h\<lparr>ranges := (ranges h)
                 (this := (ranges h this)\<lparr>skip_mask_r := skip_mask_r (ranges h this) OR b\<rparr>)\<rparr>))"

text \<open>\<^verbatim>\<open>MarkKeyDone(iter)\<close>: \<^verbatim>\<open>ctx_->value_mask_ |= (1ull << iter.index_)\<close>\<close>

definition MarkKeyDone :: "mheap \<Rightarrow> addr \<Rightarrow> Iterator \<Rightarrow> fault + mheap" where
  "MarkKeyDone h this iter =
     (case shl1 (index_i iter) of
        Inl e \<Rightarrow> Inl e
      | Inr b \<Rightarrow>
          (let c = ctx_r (ranges h this)
           in Inr (h\<lparr>contexts := (contexts h)
                      (c := (contexts h c)\<lparr>value_mask_c := value_mask_c (contexts h c) OR b\<rparr>)\<rparr>)))"

text \<open>\<^verbatim>\<open>CheckKeyDone(iter)\<close>: \<^verbatim>\<open>ctx_->value_mask_ & (1ull << iter.index_)\<close>, as a \<^verbatim>\<open>bool\<close>.\<close>

definition CheckKeyDone :: "mheap \<Rightarrow> addr \<Rightarrow> Iterator \<Rightarrow> fault + bool" where
  "CheckKeyDone h this iter =
     (case shl1 (index_i iter) of
        Inl e \<Rightarrow> Inl e
      | Inr b \<Rightarrow> Inr (value_mask_c (contexts h (ctx_r (ranges h this))) AND b \<noteq> 0))"

subsection \<open>Iterating a range\<close>

text \<open>The traversal a caller writes over a range,
  \<^verbatim>\<open>for (auto it = r.begin(), e = r.end(); it != e; ++it) visit(it)\<close>,
  returning the positions visited in the order of the visits. The bound on the rounds
  is fuel: when the iterator starts behind \<^verbatim>\<open>end()\<close> the test \<^verbatim>\<open>it != e\<close> never fails.\<close>

fun iterate_from :: "nat \<Rightarrow> mheap \<Rightarrow> Iterator \<Rightarrow> Iterator \<Rightarrow> fault + nat list" where
  "iterate_from 0 h it e = Inl OutOfFuel"
| "iterate_from (Suc fuel) h it e =
     (if Iterator_neq it e then
        (case Iterator_incr h it of
           Inl x \<Rightarrow> Inl x
         | Inr it' \<Rightarrow>
             (case iterate_from fuel h it' e of
                Inl x \<Rightarrow> Inl x
              | Inr visited \<Rightarrow> Inr (index_i it # visited)))
      else Inr [])"

definition Range_iterate :: "nat \<Rightarrow> mheap \<Rightarrow> addr \<Rightarrow> fault + nat list" where
  "Range_iterate fuel h rng =
     (case Range_begin h rng of
        Inl x \<Rightarrow> Inl x
      | Inr b \<Rightarrow>
          (case Range_end h rng of
             Inl x \<Rightarrow> Inl x
           | Inr e \<Rightarrow> iterate_from fuel h b e))"

text \<open>A position of a range is out of the iteration when its bit is set in the
  context's \<^verbatim>\<open>value_mask_\<close> or in the range's \<^verbatim>\<open>skip_mask_\<close>.\<close>

definition done_or_skipped :: "mheap \<Rightarrow> addr \<Rightarrow> nat \<Rightarrow> bool" where
  "done_or_skipped h rng i =
     bit (value_mask_c (contexts h (ctx_r (ranges h rng))) OR skip_mask_r (ranges h rng)) i"

subsection \<open>Sequences of calls\<close>

text \<open>The public members of the three classes, as calls a client makes one after the
  other on the objects of a store. A range returned by value goes to the variable
  \<open>dst\<close>; a call that only reads leaves the store as it is.\<close>

datatype mget_call =
    Call_GetMultiGetRange addr addr
  | Call_Range_sub addr addr Iterator Iterator
  | Call_SkipKey addr Iterator
  | Call_MarkKeyDone addr Iterator
  | Call_CheckKeyDone addr Iterator
  | Call_empty addr
  | Call_begin addr
  | Call_end addr
  | Call_incr Iterator

fun discard :: "mheap \<Rightarrow> fault + 'a \<Rightarrow> fault + mheap" where
  "discard h (Inl x) = Inl x"
| "discard h (Inr v) = Inr h"

fun call :: "mheap \<Rightarrow> mget_call \<Rightarrow> fault + mheap" where
  "call h (Call_GetMultiGetRange dst this) = Inr (store_range h dst (GetMultiGetRange h this))"
| "call h (Call_Range_sub dst mget_range first lst) =
     Inr (store_range h dst (Range_sub h mget_range first lst))"
| "call h (Call_SkipKey this iter) = SkipKey h this iter"
| "call h (Call_MarkKeyDone this iter) = MarkKeyDone h this iter"
| "call h (Call_CheckKeyDone this iter) = discard h (CheckKeyDone h this iter)"
| "call h (Call_empty this) = discard h (Range_empty h this)"
| "call h (Call_begin this) = discard h (Range_begin h this)"
| "call h (Call_end this) = discard h (Range_end h this)"
| "call h (Call_incr it) = discard h (Iterator_incr h it)"

fun calls :: "mheap \<Rightarrow> mget_call list \<Rightarrow> fault + mheap" where
  "calls h [] = Inr h"
| "calls h (c # cs) = (case call h c of Inl x \<Rightarrow> Inl x | Inr h' \<Rightarrow> calls h' cs)"

section \<open>AsyncFileReader\<close>

subsection \<open>Data\<close>

text \<open>Modelled from the spec: the header \<^verbatim>\<open>util/async_file_reader.h\<close>, which declares
  \<^verbatim>\<open>AsyncFileReader\<close> and its \<^verbatim>\<open>ReadAwaiter\<close>, is not among the sources. The members
  are the ones the two functions use, with the types their uses require: the handles
  and the cleanup functions are vectors (\<^verbatim>\<open>resize\<close>, \<^verbatim>\<open>push_back\<close>, indexing) of
  nullable values, \<^verbatim>\<open>read_reqs_\<close> is an array of requests given by its address, and
  the waiters form a list linked through \<^verbatim>\<open>next_\<close>, from \<^verbatim>\<open>head_\<close> to \<^verbatim>\<open>tail_\<close>.
  A coordinator starts with no waiter and a zero count.\<close>

type_synonym io_handle = nat
type_synonym deleter = nat

record ReadAwaiter =
  num_reqs_a :: nat
  read_reqs_a :: addr
  io_handle_a :: "io_handle option list"
  del_fn_a :: "deleter option list"
  next_a :: "addr option"

record AsyncFileReader =
  head_f :: "addr option"
  tail_f :: "addr option"
  num_reqs_f :: nat

record rstate =
  reader :: AsyncFileReader
  awaiters :: "addr \<Rightarrow> ReadAwaiter"

text \<open>The backend's \<^verbatim>\<open>ReadAsync\<close> is outside the repository. For the request \<open>i\<close> of the
  array at \<open>reqs\<close> it is given the two slots \<^verbatim>\<open>&io_handle_[i]\<close> and \<^verbatim>\<open>&del_fn_[i]\<close> and
  may write them: it is a parameter that maps the slots' contents before the call to
  their contents after it. Its status is dropped by \<^verbatim>\<open>PermitUncheckedError\<close>.\<close>

type_synonym backend =
  "addr \<times> nat \<Rightarrow> io_handle option \<times> deleter option \<Rightarrow> io_handle option \<times> deleter option"

text \<open>What the coordinator does outside its own state, in the order it does it.
  \<open>PollWait\<close> is the stopwatch around the poll, which reports the elapsed time to
  \<^verbatim>\<open>POLL_WAIT_MICROS\<close>; \<open>BatchSize\<close> is the sample for \<^verbatim>\<open>MULTIGET_IO_BATCH_SIZE\<close>.\<close>

datatype event =
    Poll "io_handle list" nat
  | PollWait
  | Delete deleter io_handle
  | Resume addr
  | BatchSize nat

subsection \<open>MultiReadAsyncImpl\<close>

text \<open>\<^verbatim>\<open>resize(n)\<close> on a vector of pointers: the first \<open>n\<close> elements stay, new ones are null.\<close>

definition resize :: "nat \<Rightarrow> 'a option list \<Rightarrow> 'a option list" where
  "resize n xs = take n xs @ replicate (n - length xs) None"

text \<open>One round of the loop over the requests: two \<^verbatim>\<open>push_back(nullptr)\<close>, then the
  submission with the addresses of the elements \<open>i\<close>.\<close>

definition submit :: "backend \<Rightarrow> nat \<Rightarrow> ReadAwaiter \<Rightarrow> fault + ReadAwaiter" where
  "submit ReadAsync i aw =
     (let aw1 = aw\<lparr>io_handle_a := io_handle_a aw @ [None]\<rparr>;
          aw2 = aw1\<lparr>del_fn_a := del_fn_a aw1 @ [None]\<rparr>
      in if i < length (io_handle_a aw2) \<and> i < length (del_fn_a aw2) then
           (case ReadAsync (read_reqs_a aw2, i) (io_handle_a aw2 ! i, del_fn_a aw2 ! i) of
              (hnd, del) \<Rightarrow>
                Inr (aw2\<lparr>io_handle_a := (io_handle_a aw2)[i := hnd],
                         del_fn_a := (del_fn_a aw2)[i := del]\<rparr>))
         else Inl OutOfBounds)"

fun submit_all :: "backend \<Rightarrow> nat list \<Rightarrow> ReadAwaiter \<Rightarrow> fault + ReadAwaiter" where
  "submit_all ReadAsync [] aw = Inr aw"
| "submit_all ReadAsync (i # is) aw =
     (case submit ReadAsync i aw of
        Inl x \<Rightarrow> Inl x
      | Inr aw' \<Rightarrow> submit_all ReadAsync is aw')"

definition MultiReadAsyncImpl :: "backend \<Rightarrow> rstate \<Rightarrow> addr \<Rightarrow> fault + bool \<times> rstate" where
  "MultiReadAsyncImpl ReadAsync s awaiter =
     (let s1 = (case tail_f (reader s) of
                  Some t \<Rightarrow> s\<lparr>awaiters := (awaiters s)(t := (awaiters s t)\<lparr>next_a := Some awaiter\<rparr>)\<rparr>
                | None \<Rightarrow> s);
          s2 = s1\<lparr>reader := (reader s1)\<lparr>tail_f := Some awaiter\<rparr>\<rparr>;
          s3 = (if head_f (reader s2) = None
                then s2\<lparr>reader := (reader s2)\<lparr>head_f := Some awaiter\<rparr>\<rparr> else s2);
          aw = awaiters s3 awaiter;
          s4 = s3\<lparr>reader := (reader s3)\<lparr>num_reqs_f := num_reqs_f (reader s3) + num_reqs_a aw\<rparr>\<rparr>;
          aw1 = aw\<lparr>io_handle_a := resize (num_reqs_a aw) (io_handle_a aw)\<rparr>;
          aw2 = aw1\<lparr>del_fn_a := resize (num_reqs_a aw1) (del_fn_a aw1)\<rparr>
      in case submit_all ReadAsync [0..<num_reqs_a aw2] aw2 of
           Inl x \<Rightarrow> Inl x
         | Inr aw3 \<Rightarrow> Inr (True, s4\<lparr>awaiters := (awaiters s4)(awaiter := aw3)\<rparr>))"

text \<open>Waiters enqueued one after the other.\<close>

fun enqueue_all :: "backend \<Rightarrow> rstate \<Rightarrow> addr list \<Rightarrow> fault + rstate" where
  "enqueue_all ReadAsync s [] = Inr s"
| "enqueue_all ReadAsync s (a # as) =
     (case MultiReadAsyncImpl ReadAsync s a of
        Inl x \<Rightarrow> Inl x
      | Inr (ok, s') \<Rightarrow> enqueue_all ReadAsync s' as)"

subsection \<open>Wait\<close>

text \<open>The inner loop of the first pass, over the requests \<open>is\<close> of one waiter:
  \<^verbatim>\<open>if (waiter->io_handle_[i]) io_handles.push_back(waiter->io_handle_[i]);\<close>\<close>

fun gather :: "ReadAwaiter \<Rightarrow> nat list \<Rightarrow> io_handle list \<Rightarrow> fault + io_handle list" where
  "gather w [] io_handles = Inr io_handles"
| "gather w (i # is) io_handles =
     (if i < length (io_handle_a w) then
        (case io_handle_a w ! i of
           Some hnd \<Rightarrow> gather w is (io_handles @ [hnd])
         | None \<Rightarrow> gather w is io_handles)
      else Inl OutOfBounds)"

text \<open>The first pass:
  \<^verbatim>\<open>do { ... } while (waiter != tail_ && (waiter = waiter->next_));\<close>\<close>

fun collect :: "nat \<Rightarrow> rstate \<Rightarrow> addr \<Rightarrow> io_handle list \<Rightarrow> fault + io_handle list" where
  "collect 0 s waiter io_handles = Inl OutOfFuel"
| "collect (Suc fuel) s waiter io_handles =
     (case gather (awaiters s waiter) [0..<num_reqs_a (awaiters s waiter)] io_handles of
        Inl x \<Rightarrow> Inl x
      | Inr io_handles' \<Rightarrow>
          if Some waiter \<noteq> tail_f (reader s) then
            (case next_a (awaiters s waiter) of
               Some n \<Rightarrow> collect fuel s n io_handles'
             | None \<Rightarrow> Inr io_handles')
          else Inr io_handles')"

text \<open>The inner loop of the second pass:
  \<^verbatim>\<open>if (waiter->io_handle_[i] && waiter->del_fn_[i]) waiter->del_fn_[i](waiter->io_handle_[i]);\<close>\<close>

fun cleanup :: "ReadAwaiter \<Rightarrow> nat list \<Rightarrow> fault + event list" where
  "cleanup w [] = Inr []"
| "cleanup w (i # is) =
     (if i < length (io_handle_a w) then
        (case io_handle_a w ! i of
           None \<Rightarrow> cleanup w is
         | Some hnd \<Rightarrow>
             if i < length (del_fn_a w) then
               (case del_fn_a w ! i of
                  None \<Rightarrow> cleanup w is
                | Some del \<Rightarrow>
                    (case cleanup w is of
                       Inl x \<Rightarrow> Inl x
                     | Inr evs \<Rightarrow> Inr (Delete del hnd # evs)))
             else Inl OutOfBounds)
      else Inl OutOfBounds)"

text \<open>The second pass:
  \<^verbatim>\<open>do { waiter = head_; head_ = waiter->next_; ...; waiter->awaiting_coro_.resume(); } while (waiter != tail_);\<close>
  The resumed coroutine is taken not to touch the coordinator before \<^verbatim>\<open>Wait\<close> is over.\<close>

fun drain :: "nat \<Rightarrow> rstate \<Rightarrow> fault + event list \<times> rstate" where
  "drain 0 s = Inl OutOfFuel"
| "drain (Suc fuel) s =
     (case head_f (reader s) of
        None \<Rightarrow> Inl NullDeref
      | Some waiter \<Rightarrow>
          (let s1 = s\<lparr>reader := (reader s)\<lparr>head_f := next_a (awaiters s waiter)\<rparr>\<rparr>
           in case cleanup (awaiters s1 waiter) [0..<num_reqs_a (awaiters s1 waiter)] of
                Inl x \<Rightarrow> Inl x
              | Inr evs \<Rightarrow>
                  if Some waiter \<noteq> tail_f (reader s1) then
                    (case drain fuel s1 of
                       Inl x \<Rightarrow> Inl x
                     | Inr (evs', s') \<Rightarrow> Inr (evs @ Resume waiter # evs', s'))
                  else Inr (evs @ [Resume waiter], s1)))"

definition Wait :: "nat \<Rightarrow> rstate \<Rightarrow> fault + event list \<times> rstate" where
  "Wait fuel s =
     (case head_f (reader s) of
        None \<Rightarrow> Inr ([], s)
      | Some waiter \<Rightarrow>
          (case collect fuel s waiter [] of
             Inl x \<Rightarrow> Inl x
           | Inr io_handles \<Rightarrow>
               (let polled = (if length io_handles > 0
                              then [Poll io_handles (length io_handles), PollWait] else [])
                in case drain fuel s of
                     Inl x \<Rightarrow> Inl x
                   | Inr (evs, s1) \<Rightarrow>
                       (let s2 = s1\<lparr>reader := (reader s1)\<lparr>head_f := None, tail_f := None\<rparr>\<rparr>;
                            sample = BatchSize (num_reqs_f (reader s2));
                            s3 = s2\<lparr>reader := (reader s2)\<lparr>num_reqs_f := 0\<rparr>\<rparr>
                        in Inr (polled @ evs @ [sample], s3)))))"

text \<open>The handles of a waiter that are not null, and its cleanup calls, read off the
  first \<open>num_reqs_\<close> elements of its two vectors.\<close>

definition issued_handles :: "ReadAwaiter \<Rightarrow> io_handle list" where
  "issued_handles w = List.map_filter (\<lambda>x. x) (take (num_reqs_a w) (io_handle_a w))"

definition cleanup_calls :: "ReadAwaiter \<Rightarrow> event list" where
  "cleanup_calls w =
     List.map_filter (\<lambda>(hnd, del). case (hnd, del) of (Some x, Some d) \<Rightarrow> Some (Delete d x) | _ \<Rightarrow> None)
       (zip (take (num_reqs_a w) (io_handle_a w)) (take (num_reqs_a w) (del_fn_a w)))"

definition idle :: "AsyncFileReader \<Rightarrow> bool" where
  "idle f = (head_f f = None \<and> tail_f f = None \<and> num_reqs_f f = 0)"

text \<open>The waiters \<open>ws\<close> are the pending list of a state, in this order: \<^verbatim>\<open>head_\<close> is the
  first, each \<^verbatim>\<open>next_\<close> is the one after, \<^verbatim>\<open>tail_\<close> is the last, no waiter is in the list
  twice, the count is the sum of the waiters' counts, and each waiter's vectors are at
  least as long as its count.\<close>

fun linked :: "(addr \<Rightarrow> ReadAwaiter) \<Rightarrow> addr list \<Rightarrow> bool" where
  "linked aw (a # b # ws) = (next_a (aw a) = Some b \<and> linked aw (b # ws))"
| "linked aw ws = True"

definition pending :: "rstate \<Rightarrow> addr list \<Rightarrow> bool" where
  "pending s ws =
     (if ws = [] then idle (reader s)
      else head_f (reader s) = Some (hd ws) \<and> tail_f (reader s) = Some (last ws)
        \<and> distinct ws \<and> linked (awaiters s) ws
        \<and> num_reqs_f (reader s) = sum_list (map (\<lambda>a. num_reqs_a (awaiters s a)) ws)
        \<and> list_all (\<lambda>a. num_reqs_a (awaiters s a) \<le> length (io_handle_a (awaiters s a))
                         \<and> num_reqs_a (awaiters s a) \<le> length (del_fn_a (awaiters s a))) ws)"

text \<open>A coordinator with no waiter, next to awaiters that have not been enqueued: the
  one at address \<open>a\<close> has \<open>a\<close> requests. Two backends: one hands out a handle and a
  cleanup function for every request, the other completes every read at once and
  leaves the slots as they are.\<close>

definition fresh_awaiter :: "addr \<Rightarrow> ReadAwaiter" where
  "fresh_awaiter a =
     \<lparr>num_reqs_a = a, read_reqs_a = 10 * a, io_handle_a = [], del_fn_a = [], next_a = None\<rparr>"

definition idle_state :: rstate where
  "idle_state = \<lparr>reader = \<lparr>head_f = None, tail_f = None, num_reqs_f = 0\<rparr>, awaiters = fresh_awaiter\<rparr>"

definition async_backend :: backend where
  "async_backend = (\<lambda>(reqs, i) slots. (Some (reqs + i), Some 0))"

definition sync_backend :: backend where
  "sync_backend = (\<lambda>req slots. slots)"

section \<open>A small batch\<close>

text \<open>A store used to run the definitions: every context is a batch of three keys whose
  second key is resolved, every range covers the batch, and the range at address 1 has
  skipped the first key.\<close>

definition blank_key :: KeyContext where
  "blank_key = \<lparr>key_k = ''k'', lkey_k = None, ukey_k = Empty_Slice, ikey_k = Empty_Slice\<rparr>"

definition batch3 :: mheap where
  "batch3 =
     \<lparr>contexts = (\<lambda>a. \<lparr>sorted_keys_c = (\<lambda>i. i), num_keys_c = 3, value_mask_c = 2,
                          lookup_key_ptr_c = lookup_key_buf a\<rparr>),
      ranges = (\<lambda>a. \<lparr>ctx_r = 0, start_r = 0, end_r = 3, skip_mask_r = (if a = 1 then 1 else 0)\<rparr>),
      key_contexts = (\<lambda>a. blank_key),
      lookup_keys = Map.empty\<rparr>"

text \<open>A store before any batch is built.\<close>

definition blank :: mheap where
  "blank =
     \<lparr>contexts = (\<lambda>a. \<lparr>sorted_keys_c = (\<lambda>i. 0), num_keys_c = 0, value_mask_c = 0,
                          lookup_key_ptr_c = lookup_key_buf a\<rparr>),
      ranges = (\<lambda>a. \<lparr>ctx_r = 0, start_r = 0, end_r = 0, skip_mask_r = 0\<rparr>),
      key_contexts = (\<lambda>a. blank_key),
      lookup_keys = Map.empty\<rparr>"

section \<open>Facts about the loops of the iterator\<close>

lemma exp_and_neq0: "((2 ^ n :: 64 word) AND m \<noteq> 0) = bit m n"
  by (simp add: and.commute [of "2 ^ n"] and_exp_eq_0_iff_not_bit)

lemma and_exp_neq0: "(m AND (2 ^ n :: 64 word) \<noteq> 0) = bit m n"
  by (simp add: and_exp_eq_0_iff_not_bit)

lemma skip_loop_unfold:
  "index < 64 \<Longrightarrow> skip_loop h rng index =
     (if index < end_r (ranges h rng) \<and> done_or_skipped h rng index
      then skip_loop h rng (index + 1) else Inr index)"
  by (subst skip_loop.simps) (simp add: shl1_def exp_and_neq0 done_or_skipped_def)

lemma skip_loop_past: "end_r (ranges h rng) \<le> index \<Longrightarrow> skip_loop h rng index = Inr index"
  by (subst skip_loop.simps) simp

lemma incr_loop_skip_loop: "incr_loop h rng i = skip_loop h rng (i + 1)"
proof (induction h rng i rule: incr_loop.induct)
  case (1 h rng index)
  show ?case
    apply (subst incr_loop.simps)
    apply (subst skip_loop.simps)
    using 1 by (auto split: sum.splits)
qed

text \<open>The loop stops at the first position from \<open>i\<close> on that is free, or at the end.\<close>

lemma skip_loop_char:
  assumes "end_r (ranges h rng) \<le> 64"
  shows "\<exists>j. skip_loop h rng i = Inr j \<and> i \<le> j
     \<and> (j < end_r (ranges h rng) \<longrightarrow> \<not> done_or_skipped h rng j)
     \<and> (i \<le> end_r (ranges h rng) \<longrightarrow> j \<le> end_r (ranges h rng))
     \<and> (\<forall>k. i \<le> k \<and> k < j \<longrightarrow> done_or_skipped h rng k)"
  using assms
proof (induction "end_r (ranges h rng) - i" arbitrary: i)
  case 0
  then show ?case by (auto simp add: skip_loop_past)
next
  case (Suc d)
  then have lt: "i < end_r (ranges h rng)" "i < 64" by simp_all
  show ?case
  proof (cases "done_or_skipped h rng i")
    case False
    with lt show ?thesis by (auto simp add: skip_loop_unfold)
  next
    case True
    from Suc(2) have "d = end_r (ranges h rng) - (i + 1)" by simp
    from Suc(1) [OF this Suc(3)] obtain j where j: "skip_loop h rng (i + 1) = Inr j" "i + 1 \<le> j"
      "j < end_r (ranges h rng) \<longrightarrow> \<not> done_or_skipped h rng j"
      "i + 1 \<le> end_r (ranges h rng) \<longrightarrow> j \<le> end_r (ranges h rng)"
      "\<forall>k. i + 1 \<le> k \<and> k < j \<longrightarrow> done_or_skipped h rng k"
      by blast
    have "\<forall>k. i \<le> k \<and> k < j \<longrightarrow> done_or_skipped h rng k"
    proof (intro allI impI)
      fix k assume k: "i \<le> k \<and> k < j"
      show "done_or_skipped h rng k"
      proof (cases "k = i")
        case True
        with \<open>done_or_skipped h rng i\<close> show ?thesis by simp
      next
        case False
        with k j(5) show ?thesis by (simp add: Suc_leI le_neq_implies_less)
      qed
    qed
    with j True lt show ?thesis by (simp add: skip_loop_unfold)
  qed
qed

lemma filter_free_skip:
  assumes "\<forall>k. i \<le> k \<and> k < j \<longrightarrow> P k" and "i \<le> j"
  shows "filter (\<lambda>k. \<not> P k) [i..<e] = filter (\<lambda>k. \<not> P k) [j..<e]"
proof (cases "j \<le> e")
  case True
  with assms(2) have "[i..<e] = [i..<j] @ [j..<e]"
    by (metis le_Suc_ex upt_add_eq_append)
  moreover have "filter (\<lambda>k. \<not> P k) [i..<j] = []"
    using assms(1) by (auto simp add: filter_empty_conv)
  ultimately show ?thesis by simp
next
  case False
  then have "filter (\<lambda>k. \<not> P k) [i..<e] = []"
    using assms(1) by (auto simp add: filter_empty_conv)
  with False show ?thesis by simp
qed

lemma iterate_from_visits:
  assumes "end_r (ranges h rng) \<le> 64"
    and "range_i it = rng" and "index_i e = end_r (ranges h rng)"
    and "index_i it \<le> end_r (ranges h rng)"
    and "index_i it < end_r (ranges h rng) \<longrightarrow> \<not> done_or_skipped h rng (index_i it)"
    and "end_r (ranges h rng) - index_i it < fuel"
  shows "iterate_from fuel h it e =
     Inr (filter (\<lambda>k. \<not> done_or_skipped h rng k) [index_i it..<end_r (ranges h rng)])"
  using assms
proof (induction fuel arbitrary: it)
  case 0
  then show ?case by simp
next
  case (Suc fuel)
  show ?case
  proof (cases "index_i it = end_r (ranges h rng)")
    case True
    with Suc.prems show ?thesis by (simp add: Iterator_neq_def)
  next
    case False
    with Suc.prems have lt: "index_i it < end_r (ranges h rng)" by simp
    from skip_loop_char [OF Suc.prems(1), of "index_i it + 1"]
    obtain j where j: "skip_loop h rng (index_i it + 1) = Inr j" "index_i it + 1 \<le> j"
      "j < end_r (ranges h rng) \<longrightarrow> \<not> done_or_skipped h rng j"
      "index_i it + 1 \<le> end_r (ranges h rng) \<longrightarrow> j \<le> end_r (ranges h rng)"
      "\<forall>k. index_i it + 1 \<le> k \<and> k < j \<longrightarrow> done_or_skipped h rng k"
      by blast
    let ?it' = "it\<lparr>index_i := j\<rparr>"
    have inc: "Iterator_incr h it = Inr ?it'"
      using j(1) Suc.prems(2) by (simp add: Iterator_incr_def incr_loop_skip_loop)
    have jle: "j \<le> end_r (ranges h rng)" using j(4) lt by simp
    have "iterate_from fuel h ?it' e =
        Inr (filter (\<lambda>k. \<not> done_or_skipped h rng k) [index_i ?it'..<end_r (ranges h rng)])"
      using Suc.prems j jle lt by (intro Suc.IH) auto
    moreover have "filter (\<lambda>k. \<not> done_or_skipped h rng k) [index_i it + 1..<end_r (ranges h rng)]
        = filter (\<lambda>k. \<not> done_or_skipped h rng k) [j..<end_r (ranges h rng)]"
      using j(5) j(2) by (rule filter_free_skip)
    moreover have "[index_i it..<end_r (ranges h rng)] = index_i it # [index_i it + 1..<end_r (ranges h rng)]"
      using lt by (simp add: upt_conv_Cons)
    ultimately show ?thesis
      using False lt Suc.prems(3,5) inc by (simp add: Iterator_neq_def)
  qed
qed

lemma Range_iterate_visits:
  assumes "start_r (ranges h rng) \<le> end_r (ranges h rng)" and "end_r (ranges h rng) \<le> 64"
    and "end_r (ranges h rng) - start_r (ranges h rng) < fuel"
  shows "Range_iterate fuel h rng =
     Inr (filter (\<lambda>k. \<not> done_or_skipped h rng k) [start_r (ranges h rng)..<end_r (ranges h rng)])"
proof -
  from skip_loop_char [OF assms(2), of "start_r (ranges h rng)"]
  obtain j where j: "skip_loop h rng (start_r (ranges h rng)) = Inr j" "start_r (ranges h rng) \<le> j"
      "j < end_r (ranges h rng) \<longrightarrow> \<not> done_or_skipped h rng j"
      "start_r (ranges h rng) \<le> end_r (ranges h rng) \<longrightarrow> j \<le> end_r (ranges h rng)"
      "\<forall>k. start_r (ranges h rng) \<le> k \<and> k < j \<longrightarrow> done_or_skipped h rng k"
    by blast
  let ?b = "\<lparr>range_i = rng, ctx_i = ctx_r (ranges h rng), index_i = j\<rparr>"
  let ?e = "\<lparr>range_i = rng, ctx_i = ctx_r (ranges h rng), index_i = end_r (ranges h rng)\<rparr>"
  have b: "Range_begin h rng = Inr ?b"
    using j(1) by (simp add: Range_begin_def Iterator_ctor_def)
  have e: "Range_end h rng = Inr ?e"
    by (simp add: Range_end_def Iterator_ctor_def skip_loop_past)
  have "iterate_from fuel h ?b ?e =
     Inr (filter (\<lambda>k. \<not> done_or_skipped h rng k) [index_i ?b..<end_r (ranges h rng)])"
    using assms j by (intro iterate_from_visits) auto
  moreover have "filter (\<lambda>k. \<not> done_or_skipped h rng k) [start_r (ranges h rng)..<end_r (ranges h rng)]
        = filter (\<lambda>k. \<not> done_or_skipped h rng k) [j..<end_r (ranges h rng)]"
    using j(5) j(2) by (rule filter_free_skip)
  ultimately show ?thesis using b e by (simp add: Range_iterate_def)
qed

section \<open>Facts about the masks\<close>

lemma MarkKeyDone_Inr:
  "index_i it < 64 \<Longrightarrow> MarkKeyDone h r it =
     Inr (h\<lparr>contexts := (contexts h)(ctx_r (ranges h r) :=
            (contexts h (ctx_r (ranges h r)))\<lparr>value_mask_c :=
               value_mask_c (contexts h (ctx_r (ranges h r))) OR 2 ^ index_i it\<rparr>)\<rparr>)"
  by (simp add: MarkKeyDone_def shl1_def Let_def)

lemma MarkKeyDone_cases:
  assumes "MarkKeyDone h r it = Inr h'"
  shows "index_i it < 64" and "ranges h' = ranges h"
    and "contexts h' = (contexts h)(ctx_r (ranges h r) :=
            (contexts h (ctx_r (ranges h r)))\<lparr>value_mask_c :=
               value_mask_c (contexts h (ctx_r (ranges h r))) OR 2 ^ index_i it\<rparr>)"
  using assms by (auto simp add: MarkKeyDone_def shl1_def Let_def split: if_splits)

lemma SkipKey_cases:
  assumes "SkipKey h r it = Inr h'"
  shows "index_i it < 64" and "contexts h' = contexts h"
    and "ranges h' = (ranges h)(r := (ranges h r)\<lparr>skip_mask_r := skip_mask_r (ranges h r) OR 2 ^ index_i it\<rparr>)"
    and "key_contexts h' = key_contexts h" and "lookup_keys h' = lookup_keys h"
  using assms by (auto simp add: SkipKey_def shl1_def split: if_splits)

lemma bit_exp_word64: "n < 64 \<Longrightarrow> bit (2 ^ n :: 64 word) k = (k = n)"
  by (auto simp add: bit_exp_iff)

lemma done_or_skipped_MarkKeyDone:
  assumes "MarkKeyDone h r it = Inr h'" and "ctx_r (ranges h r2) = ctx_r (ranges h r)"
  shows "done_or_skipped h' r2 k = (done_or_skipped h r2 k \<or> k = index_i it)"
  using MarkKeyDone_cases [OF assms(1)] assms(2)
  by (auto simp add: done_or_skipped_def bit_or_iff bit_exp_word64)

text \<open>The loops read the range they run over and its context, nothing else.\<close>

lemma skip_loop_frame:
  assumes "ranges h' rng = ranges h rng"
    and "contexts h' (ctx_r (ranges h rng)) = contexts h (ctx_r (ranges h rng))"
  shows "skip_loop h' rng i = skip_loop h rng i"
  using assms
proof (induction h rng i rule: skip_loop.induct)
  case (1 h rng index)
  show ?case
    apply (subst skip_loop.simps)
    apply (subst (2) skip_loop.simps)
    using 1 by (auto split: sum.splits)
qed

lemma Iterator_ctor_frame:
  assumes "ranges h' rng = ranges h rng"
    and "contexts h' (ctx_r (ranges h rng)) = contexts h (ctx_r (ranges h rng))"
  shows "Iterator_ctor h' rng i = Iterator_ctor h rng i"
  using assms(1) skip_loop_frame [OF assms] by (simp add: Iterator_ctor_def split: sum.splits)

lemma Iterator_incr_frame:
  assumes "ranges h' (range_i it) = ranges h (range_i it)"
    and "contexts h' (ctx_r (ranges h (range_i it))) = contexts h (ctx_r (ranges h (range_i it)))"
  shows "Iterator_incr h' it = Iterator_incr h it"
  using skip_loop_frame [OF assms] by (simp add: Iterator_incr_def incr_loop_skip_loop)

lemma Iterator_incr_range: "Iterator_incr h it = Inr it' \<Longrightarrow> range_i it' = range_i it"
  by (auto simp add: Iterator_incr_def split: sum.splits)

lemma iterate_from_frame:
  assumes "ranges h' (range_i it) = ranges h (range_i it)"
    and "contexts h' (ctx_r (ranges h (range_i it))) = contexts h (ctx_r (ranges h (range_i it)))"
  shows "iterate_from fuel h' it e = iterate_from fuel h it e"
  using assms
proof (induction fuel arbitrary: it)
  case 0
  show ?case by simp
next
  case (Suc fuel)
  have inc: "Iterator_incr h' it = Iterator_incr h it"
    using Suc.prems by (rule Iterator_incr_frame)
  show ?case
  proof (cases "Iterator_incr h it")
    case (Inl x)
    with inc show ?thesis by simp
  next
    case (Inr it')
    then have "range_i it' = range_i it" by (rule Iterator_incr_range)
    with Suc.prems have "iterate_from fuel h' it' e = iterate_from fuel h it' e"
      by (intro Suc.IH) simp_all
    with inc Inr show ?thesis by simp
  qed
qed

lemma Iterator_ctor_range: "Iterator_ctor h rng i = Inr it \<Longrightarrow> range_i it = rng"
  by (auto simp add: Iterator_ctor_def split: sum.splits)

lemma Range_iterate_frame:
  assumes "ranges h' rng = ranges h rng"
    and "contexts h' (ctx_r (ranges h rng)) = contexts h (ctx_r (ranges h rng))"
  shows "Range_iterate fuel h' rng = Range_iterate fuel h rng"
proof -
  have b: "Range_begin h' rng = Range_begin h rng" and e: "Range_end h' rng = Range_end h rng"
    using assms(1) Iterator_ctor_frame [OF assms] by (simp_all add: Range_begin_def Range_end_def)
  show ?thesis
  proof (cases "Range_begin h rng")
    case (Inl x)
    with b show ?thesis by (simp add: Range_iterate_def)
  next
    case (Inr it)
    then have "Iterator_ctor h rng (start_r (ranges h rng)) = Inr it"
      by (simp only: Range_begin_def)
    then have "range_i it = rng" by (rule Iterator_ctor_range)
    with assms have it: "iterate_from fuel h' it z = iterate_from fuel h it z" for z
      by (intro iterate_from_frame) simp_all
    show ?thesis
    proof (cases "Range_end h rng")
      case (Inl x)
      with b e Inr show ?thesis by (simp only: Range_iterate_def sum.case)
    next
      case z: (Inr z)
      with b e Inr it show ?thesis by (simp only: Range_iterate_def sum.case)
    qed
  qed
qed

lemma Range_empty_frame:
  assumes "ranges h' rng = ranges h rng"
    and "contexts h' (ctx_r (ranges h rng)) = contexts h (ctx_r (ranges h rng))"
  shows "Range_empty h' rng = Range_empty h rng"
  using assms by (simp add: Range_empty_def split: sum.splits)

text \<open>No call takes a bit out of a context's mask.\<close>

lemma call_keeps_bits:
  assumes "call h c = Inr h'" and "bit (value_mask_c (contexts h a)) n"
  shows "bit (value_mask_c (contexts h' a)) n"
proof (cases c)
  case (Call_MarkKeyDone r it)
  with assms(1) have "MarkKeyDone h r it = Inr h'" by simp
  from MarkKeyDone_cases(3) [OF this] assms(2) show ?thesis
    by (auto simp add: bit_or_iff)
next
  case (Call_SkipKey r it)
  with assms(1) have "SkipKey h r it = Inr h'" by simp
  from SkipKey_cases(2) [OF this] assms(2) show ?thesis by simp
next
  case (Call_GetMultiGetRange dst this)
  with assms show ?thesis by (auto simp add: store_range_def)
next
  case (Call_Range_sub dst p f l)
  with assms show ?thesis by (auto simp add: store_range_def)
next
  case (Call_CheckKeyDone r it)
  with assms show ?thesis by (cases "CheckKeyDone h r it") auto
next
  case (Call_empty r)
  with assms show ?thesis by (cases "Range_empty h r") auto
next
  case (Call_begin r)
  with assms show ?thesis by (cases "Range_begin h r") auto
next
  case (Call_end r)
  with assms show ?thesis by (cases "Range_end h r") auto
next
  case (Call_incr it)
  with assms show ?thesis by (cases "Iterator_incr h it") auto
qed

lemma calls_keep_bits:
  assumes "calls h cs = Inr h'" and "bit (value_mask_c (contexts h a)) n"
  shows "bit (value_mask_c (contexts h' a)) n"
  using assms
proof (induction cs arbitrary: h)
  case Nil
  then show ?case by simp
next
  case (Cons c cs)
  from Cons.prems(1) obtain h1 where h1: "call h c = Inr h1" "calls h1 cs = Inr h'"
    by (auto split: sum.splits)
  from call_keeps_bits [OF h1(1) Cons.prems(2)] have "bit (value_mask_c (contexts h1 a)) n" .
  with Cons.IH h1(2) show ?case by blast
qed

section \<open>Facts about single steps and whole traversals\<close>

lemma Range_begin_char:
  assumes "start_r (ranges h rng) \<le> end_r (ranges h rng)" and "end_r (ranges h rng) \<le> 64"
  shows "\<exists>b. Range_begin h rng = Inr b \<and> range_i b = rng
      \<and> start_r (ranges h rng) \<le> index_i b \<and> index_i b \<le> end_r (ranges h rng)
      \<and> (index_i b < end_r (ranges h rng) \<longrightarrow> \<not> done_or_skipped h rng (index_i b))
      \<and> (\<forall>k. start_r (ranges h rng) \<le> k \<and> k < index_i b \<longrightarrow> done_or_skipped h rng k)"
proof -
  from skip_loop_char [OF assms(2), of "start_r (ranges h rng)"] assms(1)
  obtain j where j: "skip_loop h rng (start_r (ranges h rng)) = Inr j" "start_r (ranges h rng) \<le> j"
      "j < end_r (ranges h rng) \<longrightarrow> \<not> done_or_skipped h rng j"
      "j \<le> end_r (ranges h rng)"
      "\<forall>k. start_r (ranges h rng) \<le> k \<and> k < j \<longrightarrow> done_or_skipped h rng k"
    by blast
  then show ?thesis by (simp add: Range_begin_def Iterator_ctor_def)
qed

lemma Range_end_char:
  "Range_end h rng = Inr \<lparr>range_i = rng, ctx_i = ctx_r (ranges h rng), index_i = end_r (ranges h rng)\<rparr>"
  by (simp add: Range_end_def Iterator_ctor_def skip_loop_past)

lemma Iterator_incr_char:
  assumes "end_r (ranges h (range_i it)) \<le> 64" and "index_i it < end_r (ranges h (range_i it))"
  shows "\<exists>it'. Iterator_incr h it = Inr it' \<and> range_i it' = range_i it
      \<and> index_i it < index_i it' \<and> index_i it' \<le> end_r (ranges h (range_i it))
      \<and> (index_i it' < end_r (ranges h (range_i it)) \<longrightarrow> \<not> done_or_skipped h (range_i it) (index_i it'))
      \<and> (\<forall>k. index_i it < k \<and> k < index_i it' \<longrightarrow> done_or_skipped h (range_i it) k)"
proof -
  from skip_loop_char [OF assms(1), of "index_i it + 1"] assms(2)
  obtain j where j: "skip_loop h (range_i it) (index_i it + 1) = Inr j" "index_i it + 1 \<le> j"
      "j < end_r (ranges h (range_i it)) \<longrightarrow> \<not> done_or_skipped h (range_i it) j"
      "j \<le> end_r (ranges h (range_i it))"
      "\<forall>k. index_i it + 1 \<le> k \<and> k < j \<longrightarrow> done_or_skipped h (range_i it) k"
    by auto
  then show ?thesis by (simp add: Iterator_incr_def incr_loop_skip_loop)
qed

lemma Range_iterate_all:
  assumes "start_r (ranges h rng) \<le> end_r (ranges h rng)" and "end_r (ranges h rng) \<le> 64"
    and "end_r (ranges h rng) - start_r (ranges h rng) < fuel"
    and "value_mask_c (contexts h (ctx_r (ranges h rng))) = 0" and "skip_mask_r (ranges h rng) = 0"
  shows "Range_iterate fuel h rng = Inr [start_r (ranges h rng)..<end_r (ranges h rng)]"
proof -
  have "\<not> done_or_skipped h rng k" for k
    using assms(4,5) by (simp add: done_or_skipped_def)
  with Range_iterate_visits [OF assms(1-3)] show ?thesis by simp
qed

lemma Range_iterate_MarkKeyDone:
  assumes "start_r (ranges h rng) \<le> end_r (ranges h rng)" and "end_r (ranges h rng) \<le> 64"
    and "end_r (ranges h rng) - start_r (ranges h rng) < fuel"
    and "MarkKeyDone h r it = Inr h'" and "ctx_r (ranges h rng) = ctx_r (ranges h r)"
  shows "Range_iterate fuel h' rng =
     Inr (filter (\<lambda>k. k \<noteq> index_i it)
            (filter (\<lambda>k. \<not> done_or_skipped h rng k) [start_r (ranges h rng)..<end_r (ranges h rng)]))"
proof -
  have r: "ranges h' = ranges h" using assms(4) by (rule MarkKeyDone_cases)
  have "Range_iterate fuel h' rng =
     Inr (filter (\<lambda>k. \<not> done_or_skipped h' rng k) [start_r (ranges h' rng)..<end_r (ranges h' rng)])"
    using assms(1-3) by (intro Range_iterate_visits) (simp_all add: r)
  moreover have "done_or_skipped h' rng k = (done_or_skipped h rng k \<or> k = index_i it)" for k
    using assms(4,5) by (rule done_or_skipped_MarkKeyDone)
  ultimately show ?thesis by (simp add: r conj_commute)
qed

section \<open>Ranges: the claims\<close>

text \<open>
  Claim C4. Over a range with \<open>start_ \<le> end_ \<le> 64\<close>: \<^verbatim>\<open>begin()\<close> stands on the first
  position from \<open>start_\<close> on whose bit is in neither mask of the store it is called in,
  or on \<open>end_\<close> when there is none; \<^verbatim>\<open>end()\<close> stands on \<open>end_\<close>; \<^verbatim>\<open>++\<close> from a position
  before \<open>end_\<close> goes to the next such position of the store it is called in, or to
  \<open>end_\<close>. The traversal from \<^verbatim>\<open>begin()\<close> to \<^verbatim>\<open>end()\<close> in one store visits exactly the
  positions of \<open>[start_, end_)\<close> that are in neither mask, in increasing order; the full
  range of a batch of \<open>N\<close> keys with nothing resolved visits the \<open>N\<close> positions
  \<open>0, \<dots>, N - 1\<close>; and after \<^verbatim>\<open>MarkKeyDone\<close> on a position, through any range of the same
  context, the traversal is the one before without that position.
\<close>

theorem Iterator_enumerates:
  assumes "start_r (ranges h rng) \<le> end_r (ranges h rng)" and "end_r (ranges h rng) \<le> 64"
  shows
    "(\<exists>b. Range_begin h rng = Inr b
        \<and> start_r (ranges h rng) \<le> index_i b \<and> index_i b \<le> end_r (ranges h rng)
        \<and> (index_i b < end_r (ranges h rng) \<longrightarrow> \<not> done_or_skipped h rng (index_i b))
        \<and> (\<forall>k. start_r (ranges h rng) \<le> k \<and> k < index_i b \<longrightarrow> done_or_skipped h rng k))
   \<and> (\<exists>e. Range_end h rng = Inr e \<and> index_i e = end_r (ranges h rng))
   \<and> (\<forall>it. range_i it = rng \<and> index_i it < end_r (ranges h rng) \<longrightarrow>
        (\<exists>it'. Iterator_incr h it = Inr it'
          \<and> index_i it < index_i it' \<and> index_i it' \<le> end_r (ranges h rng)
          \<and> (index_i it' < end_r (ranges h rng) \<longrightarrow> \<not> done_or_skipped h rng (index_i it'))
          \<and> (\<forall>k. index_i it < k \<and> k < index_i it' \<longrightarrow> done_or_skipped h rng k)))
   \<and> (\<forall>fuel. end_r (ranges h rng) - start_r (ranges h rng) < fuel \<longrightarrow>
        Range_iterate fuel h rng =
          Inr (filter (\<lambda>k. \<not> done_or_skipped h rng k) [start_r (ranges h rng)..<end_r (ranges h rng)]))
   \<and> (\<forall>fuel this. ranges h rng = GetMultiGetRange h this \<and> value_mask_c (contexts h this) = 0
          \<and> num_keys_c (contexts h this) < fuel \<longrightarrow>
        (\<exists>visited. Range_iterate fuel h rng = Inr visited
          \<and> visited = [0..<num_keys_c (contexts h this)]
          \<and> length visited = num_keys_c (contexts h this)))
   \<and> (\<forall>fuel r it h'. end_r (ranges h rng) - start_r (ranges h rng) < fuel
          \<and> ctx_r (ranges h rng) = ctx_r (ranges h r) \<and> MarkKeyDone h r it = Inr h' \<longrightarrow>
        Range_iterate fuel h' rng =
          Inr (filter (\<lambda>k. k \<noteq> index_i it)
                 (filter (\<lambda>k. \<not> done_or_skipped h rng k) [start_r (ranges h rng)..<end_r (ranges h rng)])))"
proof (intro conjI allI impI)
  from Range_begin_char [OF assms]
  show "\<exists>b. Range_begin h rng = Inr b
        \<and> start_r (ranges h rng) \<le> index_i b \<and> index_i b \<le> end_r (ranges h rng)
        \<and> (index_i b < end_r (ranges h rng) \<longrightarrow> \<not> done_or_skipped h rng (index_i b))
        \<and> (\<forall>k. start_r (ranges h rng) \<le> k \<and> k < index_i b \<longrightarrow> done_or_skipped h rng k)"
    by blast
next
  show "\<exists>e. Range_end h rng = Inr e \<and> index_i e = end_r (ranges h rng)"
    by (simp add: Range_end_char)
next
  fix it :: Iterator
  assume it: "range_i it = rng \<and> index_i it < end_r (ranges h rng)"
  with assms(2) have "end_r (ranges h (range_i it)) \<le> 64" "index_i it < end_r (ranges h (range_i it))"
    by simp_all
  from Iterator_incr_char [OF this] it
  show "\<exists>it'. Iterator_incr h it = Inr it'
          \<and> index_i it < index_i it' \<and> index_i it' \<le> end_r (ranges h rng)
          \<and> (index_i it' < end_r (ranges h rng) \<longrightarrow> \<not> done_or_skipped h rng (index_i it'))
          \<and> (\<forall>k. index_i it < k \<and> k < index_i it' \<longrightarrow> done_or_skipped h rng k)"
    by auto
next
  fix fuel
  assume "end_r (ranges h rng) - start_r (ranges h rng) < fuel"
  with assms show "Range_iterate fuel h rng =
          Inr (filter (\<lambda>k. \<not> done_or_skipped h rng k) [start_r (ranges h rng)..<end_r (ranges h rng)])"
    by (rule Range_iterate_visits)
next
  fix fuel this
  assume a: "ranges h rng = GetMultiGetRange h this \<and> value_mask_c (contexts h this) = 0
          \<and> num_keys_c (contexts h this) < fuel"
  then have r: "ctx_r (ranges h rng) = this" "start_r (ranges h rng) = 0"
      "end_r (ranges h rng) = num_keys_c (contexts h this)" "skip_mask_r (ranges h rng) = 0"
    by (simp_all add: GetMultiGetRange_def Range_ctor_def)
  have "Range_iterate fuel h rng = Inr [start_r (ranges h rng)..<end_r (ranges h rng)]"
    using assms a r by (intro Range_iterate_all) simp_all
  with r show "\<exists>visited. Range_iterate fuel h rng = Inr visited
          \<and> visited = [0..<num_keys_c (contexts h this)]
          \<and> length visited = num_keys_c (contexts h this)"
    by simp
next
  fix fuel r it h'
  assume a: "end_r (ranges h rng) - start_r (ranges h rng) < fuel
          \<and> ctx_r (ranges h rng) = ctx_r (ranges h r) \<and> MarkKeyDone h r it = Inr h'"
  then show "Range_iterate fuel h' rng =
          Inr (filter (\<lambda>k. k \<noteq> index_i it)
                 (filter (\<lambda>k. \<not> done_or_skipped h rng k) [start_r (ranges h rng)..<end_r (ranges h rng)]))"
    using assms by (intro Range_iterate_MarkKeyDone) simp_all
qed

theorem Iterator_enumerates_witness:
  "start_r (ranges batch3 1) \<le> end_r (ranges batch3 1) \<and> end_r (ranges batch3 1) \<le> 64
   \<and> end_r (ranges batch3 1) - start_r (ranges batch3 1) < 4
   \<and> Range_iterate 4 batch3 1 = Inr [2]"
proof -
  have b: "start_r (ranges batch3 1) \<le> end_r (ranges batch3 1)" "end_r (ranges batch3 1) \<le> 64"
    by (simp_all add: batch3_def)
  have f: "end_r (ranges batch3 1) - start_r (ranges batch3 1) < 4"
    by (simp add: batch3_def)
  have v: "filter (\<lambda>k. \<not> done_or_skipped batch3 1 k) [start_r (ranges batch3 1)..<end_r (ranges batch3 1)] = [2]"
    by code_simp
  from Iterator_enumerates [OF b] f have "Range_iterate 4 batch3 1 =
      Inr (filter (\<lambda>k. \<not> done_or_skipped batch3 1 k) [start_r (ranges batch3 1)..<end_r (ranges batch3 1)])"
    by blast
  with v b f show ?thesis by simp
qed

text \<open>
  Claim C5. For a range whose bounds are below 64, \<^verbatim>\<open>empty()\<close> returns true exactly when
  every position of \<open>[start_, end_)\<close> has its bit in \<^verbatim>\<open>value_mask_\<close> or in \<^verbatim>\<open>skip_mask_\<close>.
  The function is four mask operations and a comparison: \<open>Range_empty\<close> has no recursion.
\<close>

theorem Range_empty_iff:
  assumes "start_r (ranges h rng) < 64" and "end_r (ranges h rng) < 64"
  shows "Range_empty h rng =
     Inr (\<forall>i. start_r (ranges h rng) \<le> i \<and> i < end_r (ranges h rng) \<longrightarrow> done_or_skipped h rng i)"
proof -
  let ?s = "start_r (ranges h rng)" and ?e = "end_r (ranges h rng)"
  let ?vm = "value_mask_c (contexts h (ctx_r (ranges h rng)))" and ?sk = "skip_mask_r (ranges h rng)"
  have lt64: "i < 64" if "i < ?e" for i
    using that assms(2) by simp
  have "((mask ?e :: 64 word) AND NOT (mask ?s) AND NOT ?vm AND NOT ?sk = 0)
      = (\<forall>n<64. n < ?e \<longrightarrow> n < ?s \<or> bit ?vm n \<or> bit ?sk n)"
    by (auto simp add: bit_eq_iff bit_simps)
  also have "\<dots> = (\<forall>i. ?s \<le> i \<and> i < ?e \<longrightarrow> bit (?vm OR ?sk) i)"
  proof (intro iffI allI impI)
    fix i
    assume a: "\<forall>n<64. n < ?e \<longrightarrow> n < ?s \<or> bit ?vm n \<or> bit ?sk n" and b: "?s \<le> i \<and> i < ?e"
    from b lt64 have "i < 64" by blast
    with a b have "i < ?s \<or> bit ?vm i \<or> bit ?sk i" by blast
    with b show "bit (?vm OR ?sk) i" by (auto simp add: bit_or_iff)
  next
    fix n
    assume a: "\<forall>i. ?s \<le> i \<and> i < ?e \<longrightarrow> bit (?vm OR ?sk) i" and n: "n < 64" "n < ?e"
    show "n < ?s \<or> bit ?vm n \<or> bit ?sk n"
    proof (cases "n < ?s")
      case True
      then show ?thesis by simp
    next
      case False
      with a n have "bit (?vm OR ?sk) n" by simp
      then show ?thesis by (simp add: bit_or_iff)
    qed
  qed
  finally have "((mask ?e :: 64 word) AND NOT (mask ?s) AND NOT ?vm AND NOT ?sk = 0)
      = (\<forall>i. ?s \<le> i \<and> i < ?e \<longrightarrow> bit (?vm OR ?sk) i)" .
  then show ?thesis
    using assms by (simp add: Range_empty_def shl1_def done_or_skipped_def mask_eq_exp_minus_1)
qed

theorem Range_empty_iff_witness:
  "start_r (ranges batch3 0) < 64 \<and> end_r (ranges batch3 0) < 64
   \<and> Range_empty batch3 0 = Inr False
   \<and> \<not> (\<forall>i. start_r (ranges batch3 0) \<le> i \<and> i < end_r (ranges batch3 0) \<longrightarrow> done_or_skipped batch3 0 i)"
proof -
  have e: "Range_empty batch3 0 = Inr False"
    by (simp add: Range_empty_def shl1_def batch3_def)
  have b: "start_r (ranges batch3 0) < 64" "end_r (ranges batch3 0) < 64"
    by (simp_all add: batch3_def)
  from Range_empty_iff [OF b] e b show ?thesis by simp
qed

text \<open>
  Claim C7. The range built by \<^verbatim>\<open>Range(mget_range, first, last)\<close> has the context of
  the parent, starts at the position of \<open>first\<close>, ends at the position of \<open>last\<close>, and
  has the skip mask the parent has when it is built.
\<close>

theorem Range_sub_fields:
  "ctx_r (Range_sub h mget_range first lst) = ctx_r (ranges h mget_range)
   \<and> start_r (Range_sub h mget_range first lst) = index_i first
   \<and> end_r (Range_sub h mget_range first lst) = index_i lst
   \<and> skip_mask_r (Range_sub h mget_range first lst) = skip_mask_r (ranges h mget_range)"
  by (simp add: Range_sub_def)

lemma CheckKeyDone_Inr:
  "index_i it < 64 \<Longrightarrow>
   CheckKeyDone h r it = Inr (bit (value_mask_c (contexts h (ctx_r (ranges h r)))) (index_i it))"
  by (simp add: CheckKeyDone_def shl1_def and_exp_neq0)

text \<open>
  Claim C3. For a position below 64 and two ranges of one context: \<^verbatim>\<open>MarkKeyDone\<close> through
  the first range sets the bit of the position in the \<^verbatim>\<open>value_mask_\<close> of that context and
  changes no range; from then on \<^verbatim>\<open>CheckKeyDone\<close> through the second range answers true
  for the position, the position counts as out of the second range, and a traversal of
  the second range does not visit it. And whatever calls are made on the ranges,
  iterators and contexts of a store, a bit that is set in a context's mask stays set.
\<close>

theorem MarkKeyDone_shared:
  assumes "index_i it < 64" and "ctx_r (ranges h r2) = ctx_r (ranges h r1)"
  shows
    "(\<exists>h'. MarkKeyDone h r1 it = Inr h'
        \<and> ranges h' = ranges h
        \<and> bit (value_mask_c (contexts h' (ctx_r (ranges h r1)))) (index_i it)
        \<and> (\<forall>it2. index_i it2 = index_i it \<longrightarrow> CheckKeyDone h' r2 it2 = Inr True)
        \<and> done_or_skipped h' r2 (index_i it)
        \<and> (\<forall>fuel. start_r (ranges h r2) \<le> end_r (ranges h r2) \<and> end_r (ranges h r2) \<le> 64
              \<and> end_r (ranges h r2) - start_r (ranges h r2) < fuel \<longrightarrow>
             (\<exists>visited. Range_iterate fuel h' r2 = Inr visited \<and> index_i it \<notin> set visited)))
   \<and> (\<forall>cs h'' a n. calls h cs = Inr h'' \<and> bit (value_mask_c (contexts h a)) n \<longrightarrow>
          bit (value_mask_c (contexts h'' a)) n)"
proof (intro conjI allI impI)
  let ?h' = "h\<lparr>contexts := (contexts h)(ctx_r (ranges h r1) :=
            (contexts h (ctx_r (ranges h r1)))\<lparr>value_mask_c :=
               value_mask_c (contexts h (ctx_r (ranges h r1))) OR 2 ^ index_i it\<rparr>)\<rparr>"
  have m: "MarkKeyDone h r1 it = Inr ?h'"
    using assms(1) by (rule MarkKeyDone_Inr)
  have r: "ranges ?h' = ranges h" by simp
  have b: "bit (value_mask_c (contexts ?h' (ctx_r (ranges h r1)))) (index_i it)"
    using assms(1) by (simp add: bit_or_iff bit_exp_word64)
  have c: "CheckKeyDone ?h' r2 it2 = Inr True" if "index_i it2 = index_i it" for it2
    using assms that b by (simp add: CheckKeyDone_Inr)
  have d: "done_or_skipped ?h' r2 k = (done_or_skipped h r2 k \<or> k = index_i it)" for k
    using m assms(2) by (rule done_or_skipped_MarkKeyDone)
  have v: "\<exists>visited. Range_iterate fuel ?h' r2 = Inr visited \<and> index_i it \<notin> set visited"
    if "start_r (ranges h r2) \<le> end_r (ranges h r2) \<and> end_r (ranges h r2) \<le> 64
              \<and> end_r (ranges h r2) - start_r (ranges h r2) < fuel" for fuel
  proof -
    have "Range_iterate fuel ?h' r2 =
       Inr (filter (\<lambda>k. k \<noteq> index_i it)
            (filter (\<lambda>k. \<not> done_or_skipped h r2 k) [start_r (ranges h r2)..<end_r (ranges h r2)]))"
      using that m assms(2) by (intro Range_iterate_MarkKeyDone) simp_all
    then show ?thesis by simp
  qed
  from m r b c d v
  show "\<exists>h'. MarkKeyDone h r1 it = Inr h'
        \<and> ranges h' = ranges h
        \<and> bit (value_mask_c (contexts h' (ctx_r (ranges h r1)))) (index_i it)
        \<and> (\<forall>it2. index_i it2 = index_i it \<longrightarrow> CheckKeyDone h' r2 it2 = Inr True)
        \<and> done_or_skipped h' r2 (index_i it)
        \<and> (\<forall>fuel. start_r (ranges h r2) \<le> end_r (ranges h r2) \<and> end_r (ranges h r2) \<le> 64
              \<and> end_r (ranges h r2) - start_r (ranges h r2) < fuel \<longrightarrow>
             (\<exists>visited. Range_iterate fuel h' r2 = Inr visited \<and> index_i it \<notin> set visited))"
    by (intro exI [of _ ?h']) blast
next
  fix cs h'' a n
  assume "calls h cs = Inr h'' \<and> bit (value_mask_c (contexts h a)) n"
  then show "bit (value_mask_c (contexts h'' a)) n"
    using calls_keep_bits by blast
qed

theorem MarkKeyDone_shared_witness:
  "index_i \<lparr>range_i = 0, ctx_i = 0, index_i = 2\<rparr> < 64
   \<and> ctx_r (ranges batch3 1) = ctx_r (ranges batch3 0)
   \<and> (\<exists>h'. MarkKeyDone batch3 0 \<lparr>range_i = 0, ctx_i = 0, index_i = 2\<rparr> = Inr h'
         \<and> CheckKeyDone h' 1 \<lparr>range_i = 1, ctx_i = 0, index_i = 2\<rparr> = Inr True
         \<and> done_or_skipped h' 1 2)"
proof -
  have a: "index_i \<lparr>range_i = 0, ctx_i = 0, index_i = 2\<rparr> < 64"
    "ctx_r (ranges batch3 1) = ctx_r (ranges batch3 0)"
    by (simp_all add: batch3_def)
  from MarkKeyDone_shared [OF a]
  obtain h' where "MarkKeyDone batch3 0 \<lparr>range_i = 0, ctx_i = 0, index_i = 2\<rparr> = Inr h'"
    "\<forall>it2. index_i it2 = index_i \<lparr>range_i = 0, ctx_i = 0, index_i = 2\<rparr> \<longrightarrow> CheckKeyDone h' 1 it2 = Inr True"
    "done_or_skipped h' 1 (index_i \<lparr>range_i = 0, ctx_i = 0, index_i = 2\<rparr>)"
    by blast
  with a show ?thesis by simp
qed

text \<open>
  Claim C6. \<^verbatim>\<open>SkipKey\<close> on one range writes the \<^verbatim>\<open>skip_mask_\<close> of that range and nothing else:
  every other range object, whichever range it was built from, is the same after the
  call, no context changes, and \<^verbatim>\<open>empty()\<close>, \<^verbatim>\<open>begin()\<close>, \<^verbatim>\<open>end()\<close>, \<^verbatim>\<open>++\<close> and the
  traversal of the other range give what they gave before.
\<close>

theorem SkipKey_local:
  assumes "SkipKey h r1 it = Inr h'" and "r2 \<noteq> r1"
  shows "ranges h' r1 = (ranges h r1)\<lparr>skip_mask_r := skip_mask_r (ranges h r1) OR push_bit (index_i it) 1\<rparr>
   \<and> ranges h' r2 = ranges h r2
   \<and> contexts h' = contexts h
   \<and> (\<forall>k. done_or_skipped h' r2 k = done_or_skipped h r2 k)
   \<and> Range_empty h' r2 = Range_empty h r2
   \<and> Range_begin h' r2 = Range_begin h r2
   \<and> Range_end h' r2 = Range_end h r2
   \<and> (\<forall>it2. range_i it2 = r2 \<longrightarrow> Iterator_incr h' it2 = Iterator_incr h it2)
   \<and> (\<forall>fuel. Range_iterate fuel h' r2 = Range_iterate fuel h r2)"
proof -
  have c: "contexts h' = contexts h"
    and r: "ranges h' = (ranges h)(r1 := (ranges h r1)\<lparr>skip_mask_r := skip_mask_r (ranges h r1) OR 2 ^ index_i it\<rparr>)"
    using assms(1) by (rule SkipKey_cases)+
  from r assms(2) have r2: "ranges h' r2 = ranges h r2" by simp
  from c have c2: "contexts h' (ctx_r (ranges h r2)) = contexts h (ctx_r (ranges h r2))" by simp
  have i: "Iterator_incr h' it2 = Iterator_incr h it2" if "range_i it2 = r2" for it2
    using r2 c2 that by (intro Iterator_incr_frame) simp_all
  show ?thesis
    using r r2 c i Range_empty_frame [OF r2 c2] Range_iterate_frame [OF r2 c2]
      Iterator_ctor_frame [OF r2 c2]
    by (simp add: done_or_skipped_def Range_begin_def Range_end_def)
qed

theorem SkipKey_local_witness:
  "\<exists>h'. SkipKey batch3 1 \<lparr>range_i = 1, ctx_i = 0, index_i = 2\<rparr> = Inr h' \<and> (0::addr) \<noteq> 1
     \<and> ranges h' 0 = ranges batch3 0
     \<and> Range_iterate 4 h' 0 = Range_iterate 4 batch3 0"
proof -
  obtain h' where s: "SkipKey batch3 1 \<lparr>range_i = 1, ctx_i = 0, index_i = 2\<rparr> = Inr h'"
    by (simp add: SkipKey_def shl1_def)
  have n: "(0::addr) \<noteq> 1" by simp
  from SkipKey_local [OF s n] s n show ?thesis by blast
qed

text \<open>
  Claim C10. In a context of at most \<open>MAX_KEYS_ON_STACK\<close> keys, for a range within the
  batch (\<open>start_ \<le> end_ \<le> num_keys_\<close>) and an iterator of that range at a position up to
  \<open>end_\<close>: \<^verbatim>\<open>empty()\<close>, \<^verbatim>\<open>SkipKey\<close>, \<^verbatim>\<open>MarkKeyDone\<close>, \<^verbatim>\<open>CheckKeyDone\<close>, the iterator's
  constructor, \<^verbatim>\<open>begin()\<close>, \<^verbatim>\<open>end()\<close> and \<^verbatim>\<open>++\<close> all return a value, so none of them
  shifts by 64 or more, the only fault these functions have. The iterators they return
  are again at positions up to \<open>end_\<close>, and the ranges built by \<^verbatim>\<open>GetMultiGetRange\<close> and
  from two iterators of the range are again within the batch.
\<close>

theorem shifts_in_range:
  assumes "num_keys_c (contexts h (ctx_r (ranges h rng))) \<le> MAX_KEYS_ON_STACK"
    and "start_r (ranges h rng) \<le> end_r (ranges h rng)"
    and "end_r (ranges h rng) \<le> num_keys_c (contexts h (ctx_r (ranges h rng)))"
    and "range_i it = rng" and "index_i it \<le> end_r (ranges h rng)"
  shows
    "(\<exists>b. Range_empty h rng = Inr b)
   \<and> (\<exists>h'. SkipKey h rng it = Inr h')
   \<and> (\<exists>h'. MarkKeyDone h rng it = Inr h')
   \<and> (\<exists>b. CheckKeyDone h rng it = Inr b)
   \<and> (\<forall>i. \<exists>it'. Iterator_ctor h rng i = Inr it')
   \<and> (\<exists>it'. Range_begin h rng = Inr it' \<and> range_i it' = rng \<and> index_i it' \<le> end_r (ranges h rng))
   \<and> (\<exists>it'. Range_end h rng = Inr it' \<and> range_i it' = rng \<and> index_i it' \<le> end_r (ranges h rng))
   \<and> (\<exists>it'. Iterator_incr h it = Inr it' \<and> range_i it' = rng
         \<and> (index_i it < end_r (ranges h rng) \<longrightarrow> index_i it' \<le> end_r (ranges h rng)))
   \<and> (\<forall>first lst. index_i first \<le> index_i lst \<and> index_i lst \<le> end_r (ranges h rng) \<longrightarrow>
         ctx_r (Range_sub h rng first lst) = ctx_r (ranges h rng)
         \<and> start_r (Range_sub h rng first lst) \<le> end_r (Range_sub h rng first lst)
         \<and> end_r (Range_sub h rng first lst) \<le> num_keys_c (contexts h (ctx_r (ranges h rng))))
   \<and> ctx_r (GetMultiGetRange h (ctx_r (ranges h rng))) = ctx_r (ranges h rng)
   \<and> start_r (GetMultiGetRange h (ctx_r (ranges h rng))) \<le> end_r (GetMultiGetRange h (ctx_r (ranges h rng)))
   \<and> end_r (GetMultiGetRange h (ctx_r (ranges h rng))) \<le> num_keys_c (contexts h (ctx_r (ranges h rng)))"
proof -
  have e: "end_r (ranges h rng) \<le> 32" and s: "start_r (ranges h rng) \<le> 32" and i: "index_i it \<le> 32"
    using assms by (simp_all add: MAX_KEYS_ON_STACK_def)
  then have e64: "end_r (ranges h rng) \<le> 64" by simp
  have 1: "\<exists>b. Range_empty h rng = Inr b"
    using e s by (simp add: Range_empty_def shl1_def)
  have 2: "\<exists>h'. SkipKey h rng it = Inr h'"
    using i by (simp add: SkipKey_def shl1_def)
  have 3: "\<exists>h'. MarkKeyDone h rng it = Inr h'"
    using i by (simp add: MarkKeyDone_Inr)
  have 4: "\<exists>b. CheckKeyDone h rng it = Inr b"
    using i by (simp add: CheckKeyDone_def shl1_def)
  have 5: "\<exists>it'. Iterator_ctor h rng i = Inr it'" for i
    using skip_loop_char [OF e64, of i] by (auto simp add: Iterator_ctor_def)
  have 6: "\<exists>it'. Range_begin h rng = Inr it' \<and> range_i it' = rng \<and> index_i it' \<le> end_r (ranges h rng)"
    using Range_begin_char [OF assms(2) e64] by blast
  have 7: "\<exists>it'. Range_end h rng = Inr it' \<and> range_i it' = rng \<and> index_i it' \<le> end_r (ranges h rng)"
    by (simp add: Range_end_char)
  have 8: "\<exists>it'. Iterator_incr h it = Inr it' \<and> range_i it' = rng
         \<and> (index_i it < end_r (ranges h rng) \<longrightarrow> index_i it' \<le> end_r (ranges h rng))"
    using skip_loop_char [OF e64, of "index_i it + 1"] assms(4)
    by (auto simp add: Iterator_incr_def incr_loop_skip_loop)
  have 9: "ctx_r (Range_sub h rng first lst) = ctx_r (ranges h rng)
         \<and> start_r (Range_sub h rng first lst) \<le> end_r (Range_sub h rng first lst)
         \<and> end_r (Range_sub h rng first lst) \<le> num_keys_c (contexts h (ctx_r (ranges h rng)))"
    if "index_i first \<le> index_i lst \<and> index_i lst \<le> end_r (ranges h rng)" for first lst
    using that assms(3) by (simp add: Range_sub_def)
  have 10: "ctx_r (GetMultiGetRange h (ctx_r (ranges h rng))) = ctx_r (ranges h rng)
   \<and> start_r (GetMultiGetRange h (ctx_r (ranges h rng))) \<le> end_r (GetMultiGetRange h (ctx_r (ranges h rng)))
   \<and> end_r (GetMultiGetRange h (ctx_r (ranges h rng))) \<le> num_keys_c (contexts h (ctx_r (ranges h rng)))"
    by (simp add: GetMultiGetRange_def Range_ctor_def)
  from 1 2 3 4 5 6 7 8 9 10 show ?thesis by blast
qed

theorem shifts_in_range_witness:
  "num_keys_c (contexts batch3 (ctx_r (ranges batch3 1))) \<le> MAX_KEYS_ON_STACK
   \<and> start_r (ranges batch3 1) \<le> end_r (ranges batch3 1)
   \<and> end_r (ranges batch3 1) \<le> num_keys_c (contexts batch3 (ctx_r (ranges batch3 1)))
   \<and> index_i \<lparr>range_i = 1, ctx_i = 0, index_i = 3\<rparr> \<le> end_r (ranges batch3 1)
   \<and> (\<exists>h'. SkipKey batch3 1 \<lparr>range_i = 1, ctx_i = 0, index_i = 3\<rparr> = Inr h')
   \<and> (\<exists>b. Range_empty batch3 1 = Inr b)"
proof -
  have a: "num_keys_c (contexts batch3 (ctx_r (ranges batch3 1))) \<le> MAX_KEYS_ON_STACK"
    "start_r (ranges batch3 1) \<le> end_r (ranges batch3 1)"
    "end_r (ranges batch3 1) \<le> num_keys_c (contexts batch3 (ctx_r (ranges batch3 1)))"
    "range_i \<lparr>range_i = 1, ctx_i = 0, index_i = 3\<rparr> = 1"
    "index_i \<lparr>range_i = 1, ctx_i = 0, index_i = 3\<rparr> \<le> end_r (ranges batch3 1)"
    by (simp_all add: batch3_def MAX_KEYS_ON_STACK_def)
  from shifts_in_range [OF a] a show ?thesis by blast
qed

section \<open>The constructor: facts and claims\<close>

lemma ctor_body_Inr:
  assumes "lookup_key_ptr_c (contexts h this) = lookup_key_buf c" and "index < MAX_KEYS_ON_STACK"
  shows "\<exists>h'. ctor_body this snapshot iter (index, h) = Inr (index + 1, h')
     \<and> contexts h' = contexts h \<and> ranges h' = ranges h
     \<and> key_contexts h' = (key_contexts h)(sorted_keys_c (contexts h this) iter :=
          (key_contexts h (sorted_keys_c (contexts h this) iter))
            \<lparr>lkey_k := Some (lookup_key_buf c, index),
             ukey_k := user_key (lookup_key_buf c, index),
             ikey_k := internal_key (lookup_key_buf c, index)\<rparr>)
     \<and> lookup_keys h' = (lookup_keys h)((lookup_key_buf c, index) \<mapsto>
          LookupKey (key_k (key_contexts h (sorted_keys_c (contexts h this) iter))) snapshot)"
  using assms by (simp add: ctor_body_def Let_def)

lemma ctor_body_Inl:
  assumes "lookup_key_ptr_c (contexts h this) = lookup_key_buf c" and "\<not> index < MAX_KEYS_ON_STACK"
  shows "ctor_body this snapshot iter (index, h) = Inl OutOfBounds"
  using assms by (simp add: ctor_body_def Let_def)

lemma ctor_loop_append:
  "ctor_loop this snapshot (xs @ ys) st =
     (case ctor_loop this snapshot xs st of
        Inl x \<Rightarrow> Inl x
      | Inr st' \<Rightarrow> ctor_loop this snapshot ys st')"
  by (induction xs arbitrary: st) (auto split: sum.splits)

text \<open>The loop of the constructor after \<open>n\<close> rounds, within the inline buffer.\<close>

lemma ctor_loop_within:
  assumes "lookup_key_ptr_c (contexts h this) = lookup_key_buf c" and "n \<le> MAX_KEYS_ON_STACK"
  shows "\<exists>h'. ctor_loop this snapshot [0..<n] (0, h) = Inr (n, h')
     \<and> contexts h' = contexts h \<and> ranges h' = ranges h
     \<and> (inj_on (sorted_keys_c (contexts h this)) {..<n} \<longrightarrow>
          (\<forall>i<n. lkey_k (key_contexts h' (sorted_keys_c (contexts h this) i))
                    = Some (lookup_key_buf c, i)))"
  using assms(2)
proof (induction n)
  case 0
  show ?case by simp
next
  case (Suc n)
  let ?sk = "sorted_keys_c (contexts h this)"
  from Suc obtain hn where hn: "ctor_loop this snapshot [0..<n] (0, h) = Inr (n, hn)"
    "contexts hn = contexts h" "ranges hn = ranges h"
    "inj_on ?sk {..<n} \<longrightarrow> (\<forall>i<n. lkey_k (key_contexts hn (?sk i)) = Some (lookup_key_buf c, i))"
    by auto
  from Suc.prems have lt: "n < MAX_KEYS_ON_STACK" by simp
  from assms(1) hn(2) have p: "lookup_key_ptr_c (contexts hn this) = lookup_key_buf c" by simp
  from ctor_body_Inr [OF p lt, of snapshot n]
  obtain h' where b: "ctor_body this snapshot n (n, hn) = Inr (n + 1, h')"
    "contexts h' = contexts hn" "ranges h' = ranges hn"
    "key_contexts h' = (key_contexts hn)(sorted_keys_c (contexts hn this) n :=
          (key_contexts hn (sorted_keys_c (contexts hn this) n))
            \<lparr>lkey_k := Some (lookup_key_buf c, n),
             ukey_k := user_key (lookup_key_buf c, n),
             ikey_k := internal_key (lookup_key_buf c, n)\<rparr>)"
    by blast
  from b(4) hn(2) have keys: "key_contexts h' = (key_contexts hn)(?sk n :=
          (key_contexts hn (?sk n))
            \<lparr>lkey_k := Some (lookup_key_buf c, n),
             ukey_k := user_key (lookup_key_buf c, n),
             ikey_k := internal_key (lookup_key_buf c, n)\<rparr>)"
    by simp
  have "\<forall>i<Suc n. lkey_k (key_contexts h' (?sk i)) = Some (lookup_key_buf c, i)"
    if inj: "inj_on ?sk {..<Suc n}"
  proof (intro allI impI)
    fix i assume i: "i < Suc n"
    show "lkey_k (key_contexts h' (?sk i)) = Some (lookup_key_buf c, i)"
    proof (cases "i = n")
      case True
      then show ?thesis by (simp add: keys)
    next
      case False
      with i have l: "i < n" by simp
      with inj have ne: "?sk i \<noteq> ?sk n" by (auto simp add: inj_on_def)
      from inj have "inj_on ?sk {..<n}" by (rule inj_on_subset) auto
      with hn(4) l have "lkey_k (key_contexts hn (?sk i)) = Some (lookup_key_buf c, i)"
        by blast
      with ne show ?thesis by (simp add: keys)
    qed
  qed
  moreover have "ctor_loop this snapshot [0..<Suc n] (0, h) = Inr (Suc n, h')"
    using hn(1) b(1) by (simp add: ctor_loop_append)
  ultimately show ?case using b(2,3) hn(2,3) by simp
qed

text \<open>The round for position \<open>MAX_KEYS_ON_STACK\<close> is the first that faults.\<close>

lemma ctor_loop_beyond:
  assumes "lookup_key_ptr_c (contexts h this) = lookup_key_buf c" and "MAX_KEYS_ON_STACK < n"
  shows "ctor_loop this snapshot [0..<n] (0, h) = Inl OutOfBounds"
proof -
  let ?m = MAX_KEYS_ON_STACK
  from ctor_loop_within [OF assms(1) order_refl, of snapshot]
  obtain hm where hm: "ctor_loop this snapshot [0..<?m] (0, h) = Inr (?m, hm)"
    "contexts hm = contexts h"
    by blast
  from assms(1) hm(2) have p: "lookup_key_ptr_c (contexts hm this) = lookup_key_buf c" by simp
  have b: "ctor_body this snapshot ?m (?m, hm) = Inl OutOfBounds"
    using p by (rule ctor_body_Inl) simp
  from assms(2) have "[0..<n] = [0..<?m] @ ?m # [Suc ?m..<n]"
    by (metis less_imp_le_nat upt_add_eq_append le_Suc_ex upt_conv_Cons zero_le le_add_diff_inverse)
  then show ?thesis using hm(1) b by (simp add: ctor_loop_append)
qed

lemma ctor_within:
  assumes "num_keys \<le> MAX_KEYS_ON_STACK"
  shows "\<exists>h'. MultiGetContext_ctor h this sorted_keys num_keys snapshot = Inr h'
     \<and> contexts h' = (contexts h)(this :=
          \<lparr>sorted_keys_c = sorted_keys, num_keys_c = num_keys, value_mask_c = 0,
           lookup_key_ptr_c = lookup_key_buf this\<rparr>)
     \<and> ranges h' = ranges h
     \<and> (inj_on sorted_keys {..<num_keys} \<longrightarrow>
          (\<forall>i<num_keys. lkey_k (key_contexts h' (sorted_keys i)) = Some (lookup_key_buf this, i)
                      \<and> slot_in_lookup_key_buf (lookup_key_buf this, i)))"
proof -
  let ?h0 = "ctor_init h this sorted_keys num_keys"
  have p: "lookup_key_ptr_c (contexts ?h0 this) = lookup_key_buf this"
    by (simp add: ctor_init_def)
  from ctor_loop_within [OF p assms, of snapshot]
  obtain h' where h': "ctor_loop this snapshot [0..<num_keys] (0, ?h0) = Inr (num_keys, h')"
    "contexts h' = contexts ?h0" "ranges h' = ranges ?h0"
    "inj_on (sorted_keys_c (contexts ?h0 this)) {..<num_keys} \<longrightarrow>
          (\<forall>i<num_keys. lkey_k (key_contexts h' (sorted_keys_c (contexts ?h0 this) i))
                    = Some (lookup_key_buf this, i))"
    by blast
  have "MultiGetContext_ctor h this sorted_keys num_keys snapshot = Inr h'"
    using h'(1) by (simp add: MultiGetContext_ctor_def)
  moreover have "\<forall>i<num_keys. slot_in_lookup_key_buf (lookup_key_buf this, i)"
    using assms by auto
  ultimately show ?thesis using h'(2,3,4) by (auto simp add: ctor_init_def)
qed

lemma ctor_beyond:
  assumes "MAX_KEYS_ON_STACK < num_keys"
  shows "MultiGetContext_ctor h this sorted_keys num_keys snapshot = Inl OutOfBounds"
proof -
  let ?h0 = "ctor_init h this sorted_keys num_keys"
  have p: "lookup_key_ptr_c (contexts ?h0 this) = lookup_key_buf this"
    by (simp add: ctor_init_def)
  from ctor_loop_beyond [OF p assms, of snapshot] show ?thesis
    by (simp add: MultiGetContext_ctor_def)
qed

text \<open>
  Claim C1 says that a key count above the 64 bits of the mask is refused with an
  explicit error. The constructor makes no test of the count. With 65 keys it builds
  the lookup keys of the first 32 keys in the inline buffer, and its next round is the
  placement past the end of that buffer: undefined behaviour, and no refusal.
\<close>

theorem ctor_65_keys_overruns:
  "\<not> (65 :: nat) \<le> 64
   \<and> \<not> isl (ctor_loop 0 7 [0..<32] (0, ctor_init blank 0 id 65))
   \<and> MultiGetContext_ctor blank 0 id 65 7 = Inl OutOfBounds"
proof -
  have p: "lookup_key_ptr_c (contexts (ctor_init blank 0 id 65) 0) = lookup_key_buf 0"
    by (simp add: ctor_init_def)
  have "(32 :: nat) \<le> MAX_KEYS_ON_STACK" by (simp add: MAX_KEYS_ON_STACK_def)
  from ctor_loop_within [OF p this, of 7]
  have "\<not> isl (ctor_loop 0 7 [0..<32] (0, ctor_init blank 0 id 65))" by auto
  moreover have "MultiGetContext_ctor blank 0 id 65 7 = Inl OutOfBounds"
    by (rule ctor_beyond) (simp add: MAX_KEYS_ON_STACK_def)
  ultimately show ?thesis by simp
qed

text \<open>
  Claim C1, as the code has it: the constructor does not look at the count. For every
  count up to \<open>MAX_KEYS_ON_STACK\<close> it completes and leaves a context that records the
  count as \<^verbatim>\<open>num_keys_\<close>, has no bit in \<^verbatim>\<open>value_mask_\<close>, and hands out the full range
  \<open>[0, num_keys)\<close> with an empty skip mask.
\<close>

theorem ctor_within_limit:
  assumes "num_keys \<le> MAX_KEYS_ON_STACK"
  shows "\<exists>h'. MultiGetContext_ctor h this sorted_keys num_keys snapshot = Inr h'
     \<and> num_keys_c (contexts h' this) = num_keys
     \<and> value_mask_c (contexts h' this) = 0
     \<and> sorted_keys_c (contexts h' this) = sorted_keys
     \<and> GetMultiGetRange h' this = \<lparr>ctx_r = this, start_r = 0, end_r = num_keys, skip_mask_r = 0\<rparr>"
proof -
  from ctor_within [OF assms, of h this sorted_keys snapshot]
  obtain h' where "MultiGetContext_ctor h this sorted_keys num_keys snapshot = Inr h'"
    "contexts h' = (contexts h)(this :=
          \<lparr>sorted_keys_c = sorted_keys, num_keys_c = num_keys, value_mask_c = 0,
           lookup_key_ptr_c = lookup_key_buf this\<rparr>)"
    by blast
  then show ?thesis by (simp add: GetMultiGetRange_def Range_ctor_def)
qed

theorem ctor_within_limit_witness:
  "(3 :: nat) \<le> MAX_KEYS_ON_STACK
   \<and> (\<exists>h'. MultiGetContext_ctor blank 0 id 3 7 = Inr h'
         \<and> num_keys_c (contexts h' 0) = 3 \<and> value_mask_c (contexts h' 0) = 0
         \<and> end_r (GetMultiGetRange h' 0) = 3)"
proof -
  have a: "(3 :: nat) \<le> MAX_KEYS_ON_STACK" by (simp add: MAX_KEYS_ON_STACK_def)
  from ctor_within_limit [OF a, of blank 0 id 7]
  obtain h' where "MultiGetContext_ctor blank 0 id 3 7 = Inr h'"
    "num_keys_c (contexts h' 0) = 3" "value_mask_c (contexts h' 0) = 0"
    "GetMultiGetRange h' 0 = \<lparr>ctx_r = 0, start_r = 0, end_r = 3, skip_mask_r = 0\<rparr>"
    by blast
  with a show ?thesis by auto
qed

text \<open>
  Claim C8 on a batch of 33 keys, one more than \<open>MAX_KEYS_ON_STACK\<close>. The constructor
  has no branch that allocates: \<^verbatim>\<open>lookup_key_ptr_\<close> is the inline buffer whatever the
  count, so the round for the last key places at element 32, which is not in the
  buffer, and the constructor ends in the fault. With 32 keys it completes: the last
  lookup key is at element 31, \<^verbatim>\<open>lookup_key_ptr_\<close> is the inline buffer, and the destructor,
  whose \<^verbatim>\<open>delete[]\<close> is for a pointer other than the inline buffer, releases nothing.
  The lemmas \<open>ctor_within\<close> and \<open>ctor_beyond\<close> give the same for every count.
\<close>

theorem ctor_33_keys_overrun:
  "MultiGetContext_ctor blank 0 id 33 7 = Inl OutOfBounds
   \<and> \<not> slot_in_lookup_key_buf (lookup_key_buf 0, 32)
   \<and> \<not> isl (MultiGetContext_ctor blank 0 id 32 7)
   \<and> lkey_k (key_contexts (projr (MultiGetContext_ctor blank 0 id 32 7)) 31) = Some (lookup_key_buf 0, 31)
   \<and> lookup_key_ptr_c (contexts (projr (MultiGetContext_ctor blank 0 id 32 7)) 0) = lookup_key_buf 0
   \<and> MultiGetContext_dtor (projr (MultiGetContext_ctor blank 0 id 32 7)) 0 = []"
proof -
  have o: "MultiGetContext_ctor blank 0 id 33 7 = Inl OutOfBounds"
    by (rule ctor_beyond) (simp add: MAX_KEYS_ON_STACK_def)
  have "(32 :: nat) \<le> MAX_KEYS_ON_STACK" by (simp add: MAX_KEYS_ON_STACK_def)
  from ctor_within [OF this, of blank 0 id 7]
  obtain h' where h': "MultiGetContext_ctor blank 0 id 32 7 = Inr h'"
    "contexts h' = (contexts blank)(0 :=
          \<lparr>sorted_keys_c = id, num_keys_c = 32, value_mask_c = 0,
           lookup_key_ptr_c = lookup_key_buf 0\<rparr>)"
    "inj_on (id :: nat \<Rightarrow> addr) {..<32} \<longrightarrow>
          (\<forall>i<32. lkey_k (key_contexts h' (id i)) = Some (lookup_key_buf 0, i)
                      \<and> slot_in_lookup_key_buf (lookup_key_buf 0, i))"
    by blast
  from h'(3) have "lkey_k (key_contexts h' 31) = Some (lookup_key_buf 0, 31)" by simp
  with o h'(1,2) show ?thesis
    by (simp add: MultiGetContext_dtor_def MAX_KEYS_ON_STACK_def)
qed

section \<open>The coordinator: facts\<close>

lemma submit_Inr:
  assumes "i \<le> length (io_handle_a aw)" and "i \<le> length (del_fn_a aw)"
  shows "\<exists>aw'. submit ReadAsync i aw = Inr aw'
     \<and> length (io_handle_a aw') = length (io_handle_a aw) + 1
     \<and> length (del_fn_a aw') = length (del_fn_a aw) + 1
     \<and> num_reqs_a aw' = num_reqs_a aw \<and> next_a aw' = next_a aw \<and> read_reqs_a aw' = read_reqs_a aw"
  using assms by (auto simp add: submit_def Let_def split: prod.splits)

lemma submit_all_Inr:
  assumes "\<forall>i\<in>set is. i \<le> length (io_handle_a aw) \<and> i \<le> length (del_fn_a aw)"
  shows "\<exists>aw'. submit_all ReadAsync is aw = Inr aw'
     \<and> length (io_handle_a aw') = length (io_handle_a aw) + length is
     \<and> length (del_fn_a aw') = length (del_fn_a aw) + length is
     \<and> num_reqs_a aw' = num_reqs_a aw \<and> next_a aw' = next_a aw \<and> read_reqs_a aw' = read_reqs_a aw"
  using assms
proof (induction "is" arbitrary: aw)
  case Nil
  show ?case by simp
next
  case (Cons i "is")
  from Cons.prems have "i \<le> length (io_handle_a aw)" "i \<le> length (del_fn_a aw)" by simp_all
  from submit_Inr [OF this, of ReadAsync]
  obtain aw1 where aw1: "submit ReadAsync i aw = Inr aw1"
     "length (io_handle_a aw1) = length (io_handle_a aw) + 1"
     "length (del_fn_a aw1) = length (del_fn_a aw) + 1"
     "num_reqs_a aw1 = num_reqs_a aw" "next_a aw1 = next_a aw" "read_reqs_a aw1 = read_reqs_a aw"
    by blast
  from Cons.prems aw1 have "\<forall>i\<in>set is. i \<le> length (io_handle_a aw1) \<and> i \<le> length (del_fn_a aw1)"
    by auto
  from Cons.IH [OF this] aw1 show ?case by auto
qed

lemma length_resize: "length (resize n xs) = n"
  by (simp add: resize_def)

lemma submit_all_resized:
  "\<exists>aw3. submit_all ReadAsync [0..<num_reqs_a aw]
            (aw\<lparr>io_handle_a := resize (num_reqs_a aw) (io_handle_a aw),
                del_fn_a := resize (num_reqs_a aw) (del_fn_a aw)\<rparr>) = Inr aw3
     \<and> length (io_handle_a aw3) = 2 * num_reqs_a aw
     \<and> length (del_fn_a aw3) = 2 * num_reqs_a aw
     \<and> num_reqs_a aw3 = num_reqs_a aw \<and> next_a aw3 = next_a aw"
proof -
  let ?aw2 = "aw\<lparr>io_handle_a := resize (num_reqs_a aw) (io_handle_a aw),
                del_fn_a := resize (num_reqs_a aw) (del_fn_a aw)\<rparr>"
  have "\<forall>i\<in>set [0..<num_reqs_a aw]. i \<le> length (io_handle_a ?aw2) \<and> i \<le> length (del_fn_a ?aw2)"
    by (simp add: length_resize)
  from submit_all_Inr [OF this, of ReadAsync] show ?thesis
    by (auto simp add: length_resize)
qed

text \<open>What an enqueue does to the state.\<close>

lemma MultiReadAsyncImpl_effect:
  "\<exists>s'. MultiReadAsyncImpl ReadAsync s a = Inr (True, s')
     \<and> reader s' = \<lparr>head_f = (if head_f (reader s) = None then Some a else head_f (reader s)),
                     tail_f = Some a,
                     num_reqs_f = num_reqs_f (reader s) + num_reqs_a (awaiters s a)\<rparr>
     \<and> (\<forall>b. b \<noteq> a \<longrightarrow> awaiters s' b =
           (if tail_f (reader s) = Some b then (awaiters s b)\<lparr>next_a := Some a\<rparr> else awaiters s b))
     \<and> num_reqs_a (awaiters s' a) = num_reqs_a (awaiters s a)
     \<and> length (io_handle_a (awaiters s' a)) = 2 * num_reqs_a (awaiters s a)
     \<and> length (del_fn_a (awaiters s' a)) = 2 * num_reqs_a (awaiters s a)"
proof (cases "tail_f (reader s) = Some a")
  case True
  from submit_all_resized [of ReadAsync "(awaiters s a)\<lparr>next_a := Some a\<rparr>"]
  obtain aw3 where "submit_all ReadAsync [0..<num_reqs_a (awaiters s a)]
            (awaiters s a\<lparr>next_a := Some a, io_handle_a := resize (num_reqs_a (awaiters s a)) (io_handle_a (awaiters s a)),
                del_fn_a := resize (num_reqs_a (awaiters s a)) (del_fn_a (awaiters s a))\<rparr>) = Inr aw3"
     "length (io_handle_a aw3) = 2 * num_reqs_a (awaiters s a)"
     "length (del_fn_a aw3) = 2 * num_reqs_a (awaiters s a)"
     "num_reqs_a aw3 = num_reqs_a (awaiters s a)"
    by auto
  with True show ?thesis
    by (cases "reader s") (simp add: MultiReadAsyncImpl_def Let_def)
next
  case False
  from submit_all_resized [of ReadAsync "awaiters s a"]
  obtain aw3 where "submit_all ReadAsync [0..<num_reqs_a (awaiters s a)]
            (awaiters s a\<lparr>io_handle_a := resize (num_reqs_a (awaiters s a)) (io_handle_a (awaiters s a)),
                del_fn_a := resize (num_reqs_a (awaiters s a)) (del_fn_a (awaiters s a))\<rparr>) = Inr aw3"
     "length (io_handle_a aw3) = 2 * num_reqs_a (awaiters s a)"
     "length (del_fn_a aw3) = 2 * num_reqs_a (awaiters s a)"
     "num_reqs_a aw3 = num_reqs_a (awaiters s a)"
    by auto
  with False show ?thesis
    by (cases "reader s") (auto simp add: MultiReadAsyncImpl_def Let_def split: option.splits)
qed

lemma linked_append:
  "linked aw (ws @ [t]) \<Longrightarrow> next_a (aw t) = Some a \<Longrightarrow> linked aw (ws @ [t, a])"
  by (induction aw ws rule: linked.induct) auto

lemma linked_cong:
  assumes "linked aw ws"
    and "\<And>a. a \<in> set (butlast ws) \<Longrightarrow> next_a (aw' a) = next_a (aw a)"
  shows "linked aw' ws"
  using assms
proof (induction aw ws rule: linked.induct)
  case (1 aw a b ws)
  then show ?case by auto
qed auto

lemma last_notin_butlast: "distinct ws \<Longrightarrow> ws \<noteq> [] \<Longrightarrow> last ws \<notin> set (butlast ws)"
proof -
  assume d: "distinct ws" and n: "ws \<noteq> []"
  then have "distinct (butlast ws @ [last ws])" by simp
  then show ?thesis by (simp only: distinct_append) simp
qed

text \<open>Enqueueing a waiter that is not pending puts it behind the pending ones.\<close>

lemma MultiReadAsyncImpl_pending:
  assumes "pending s ws" and "a \<notin> set ws"
  shows "\<exists>s'. MultiReadAsyncImpl ReadAsync s a = Inr (True, s') \<and> pending s' (ws @ [a])"
proof -
  from MultiReadAsyncImpl_effect [of ReadAsync s a]
  obtain s' where s': "MultiReadAsyncImpl ReadAsync s a = Inr (True, s')"
     "reader s' = \<lparr>head_f = (if head_f (reader s) = None then Some a else head_f (reader s)),
                     tail_f = Some a,
                     num_reqs_f = num_reqs_f (reader s) + num_reqs_a (awaiters s a)\<rparr>"
     "\<forall>b. b \<noteq> a \<longrightarrow> awaiters s' b =
           (if tail_f (reader s) = Some b then (awaiters s b)\<lparr>next_a := Some a\<rparr> else awaiters s b)"
     "num_reqs_a (awaiters s' a) = num_reqs_a (awaiters s a)"
     "length (io_handle_a (awaiters s' a)) = 2 * num_reqs_a (awaiters s a)"
     "length (del_fn_a (awaiters s' a)) = 2 * num_reqs_a (awaiters s a)"
    by blast
  have "pending s' (ws @ [a])"
  proof (cases "ws = []")
    case True
    with assms(1) s' show ?thesis by (simp add: pending_def idle_def)
  next
    case False
    with assms(1) have p: "head_f (reader s) = Some (hd ws)" "tail_f (reader s) = Some (last ws)"
        "distinct ws" "linked (awaiters s) ws"
        "num_reqs_f (reader s) = sum_list (map (\<lambda>a. num_reqs_a (awaiters s a)) ws)"
        "list_all (\<lambda>a. num_reqs_a (awaiters s a) \<le> length (io_handle_a (awaiters s a))
                         \<and> num_reqs_a (awaiters s a) \<le> length (del_fn_a (awaiters s a))) ws"
      by (simp_all add: pending_def)
    have old: "num_reqs_a (awaiters s' b) = num_reqs_a (awaiters s b)
        \<and> io_handle_a (awaiters s' b) = io_handle_a (awaiters s b)
        \<and> del_fn_a (awaiters s' b) = del_fn_a (awaiters s b)" if "b \<in> set ws" for b
      using that assms(2) s'(3) by auto
    have nxt: "next_a (awaiters s' b) = next_a (awaiters s b)" if "b \<in> set ws" "b \<noteq> last ws" for b
      using that assms(2) s'(3) p(2) by auto
    have "last ws \<in> set ws" using False by simp
    with assms(2) have "last ws \<noteq> a" by auto
    with s'(3) p(2) have tl: "next_a (awaiters s' (last ws)) = Some a" by simp
    have "next_a (awaiters s' b) = next_a (awaiters s b)" if "b \<in> set (butlast ws)" for b
    proof -
      from that have "b \<in> set ws" by (rule in_set_butlastD)
      moreover from that last_notin_butlast [OF p(3) False] have "b \<noteq> last ws" by auto
      ultimately show ?thesis by (rule nxt)
    qed
    with p(4) have "linked (awaiters s') ws" by (rule linked_cong)
    then have "linked (awaiters s') (butlast ws @ [last ws])" using False by simp
    from linked_append [OF this tl] have l: "linked (awaiters s') (ws @ [a])"
      using False by (metis append.assoc append_Cons append_Nil append_butlast_last_id)
    have sm: "sum_list (map (\<lambda>a. num_reqs_a (awaiters s' a)) ws) = sum_list (map (\<lambda>a. num_reqs_a (awaiters s a)) ws)"
      using old by (intro arg_cong [of _ _ sum_list] map_cong) auto
    have la: "list_all (\<lambda>a. num_reqs_a (awaiters s' a) \<le> length (io_handle_a (awaiters s' a))
                         \<and> num_reqs_a (awaiters s' a) \<le> length (del_fn_a (awaiters s' a))) ws"
      using p(6) old by (auto simp add: list_all_iff)
    from False p assms(2) s' l sm la show ?thesis
      by (simp add: pending_def)
  qed
  with s'(1) show ?thesis by blast
qed

lemma enqueue_all_pending:
  assumes "pending s ws" and "distinct (ws @ as)"
  shows "\<exists>s'. enqueue_all ReadAsync s as = Inr s' \<and> pending s' (ws @ as)"
  using assms
proof (induction as arbitrary: s ws)
  case Nil
  then show ?case by simp
next
  case (Cons a as)
  from Cons.prems(2) have "a \<notin> set ws" by auto
  from MultiReadAsyncImpl_pending [OF Cons.prems(1) this, of ReadAsync]
  obtain s1 where s1: "MultiReadAsyncImpl ReadAsync s a = Inr (True, s1)" "pending s1 (ws @ [a])"
    by blast
  from Cons.prems(2) have "distinct ((ws @ [a]) @ as)" by auto
  from Cons.IH [OF s1(2) this] s1(1) show ?case by simp
qed

lemma map_nth_upt_take: "k \<le> length xs \<Longrightarrow> map (nth xs) [0..<k] = take k xs"
  by (auto simp add: list_eq_iff_nth_eq)

lemma map_filter_upt_take:
  assumes "k \<le> length xs"
  shows "List.map_filter (\<lambda>i. f (xs ! i)) [0..<k] = List.map_filter f (take k xs)"
proof -
  have "List.map_filter f (map (nth xs) [0..<k]) = List.map_filter (\<lambda>i. f (xs ! i)) [0..<k]"
    by (simp add: List.map_filter_def filter_map comp_def)
  with map_nth_upt_take [OF assms] show ?thesis by simp
qed

lemma zip_take_upt:
  assumes "k \<le> length xs" and "k \<le> length ys"
  shows "zip (take k xs) (take k ys) = map (\<lambda>i. (xs ! i, ys ! i)) [0..<k]"
  using assms by (auto simp add: list_eq_iff_nth_eq)

lemma gather_Inr:
  assumes "\<forall>i\<in>set is. i < length (io_handle_a w)"
  shows "gather w is acc = Inr (acc @ List.map_filter (\<lambda>i. io_handle_a w ! i) is)"
  using assms by (induction "is" arbitrary: acc) (auto split: option.splits)

lemma gather_issued:
  assumes "num_reqs_a w \<le> length (io_handle_a w)"
  shows "gather w [0..<num_reqs_a w] acc = Inr (acc @ issued_handles w)"
proof -
  have "gather w [0..<num_reqs_a w] acc =
      Inr (acc @ List.map_filter (\<lambda>i. io_handle_a w ! i) [0..<num_reqs_a w])"
    using assms by (intro gather_Inr) auto
  with map_filter_upt_take [OF assms, of "\<lambda>x. x"] show ?thesis
    by (simp add: issued_handles_def)
qed

lemma cleanup_Inr:
  assumes "\<forall>i\<in>set is. i < length (io_handle_a w) \<and> i < length (del_fn_a w)"
  shows "cleanup w is =
     Inr (List.map_filter (\<lambda>i. case (io_handle_a w ! i, del_fn_a w ! i) of
                                  (Some x, Some d) \<Rightarrow> Some (Delete d x) | _ \<Rightarrow> None) is)"
  using assms by (induction "is") (auto split: option.splits)

lemma cleanup_calls_eq:
  assumes "num_reqs_a w \<le> length (io_handle_a w)" and "num_reqs_a w \<le> length (del_fn_a w)"
  shows "cleanup w [0..<num_reqs_a w] = Inr (cleanup_calls w)"
proof -
  have "cleanup w [0..<num_reqs_a w] =
     Inr (List.map_filter (\<lambda>i. case (io_handle_a w ! i, del_fn_a w ! i) of
                                  (Some x, Some d) \<Rightarrow> Some (Delete d x) | _ \<Rightarrow> None) [0..<num_reqs_a w])"
    using assms by (intro cleanup_Inr) auto
  then show ?thesis
    by (simp add: cleanup_calls_def zip_take_upt [OF assms] List.map_filter_def filter_map comp_def)
qed

text \<open>The first pass, started at a waiter of the pending list, gathers the handles of
  that waiter and of the waiters behind it.\<close>

lemma collect_chain:
  assumes "linked (awaiters s) ws" and "distinct ws" and "ws \<noteq> []"
    and "tail_f (reader s) = Some (last ws)"
    and "list_all (\<lambda>a. num_reqs_a (awaiters s a) \<le> length (io_handle_a (awaiters s a))) ws"
    and "length ws \<le> fuel"
  shows "collect fuel s (hd ws) acc = Inr (acc @ concat (map (\<lambda>a. issued_handles (awaiters s a)) ws))"
  using assms
proof (induction ws arbitrary: fuel acc)
  case Nil
  then show ?case by simp
next
  case (Cons a ws)
  from Cons.prems(6) obtain f where f: "fuel = Suc f" "length ws \<le> f"
    by (cases fuel) auto
  from Cons.prems(5) have g: "gather (awaiters s a) [0..<num_reqs_a (awaiters s a)] acc
      = Inr (acc @ issued_handles (awaiters s a))"
    by (intro gather_issued) simp
  show ?case
  proof (cases ws)
    case Nil
    with Cons.prems(4) f g show ?thesis by simp
  next
    case (Cons b rest)
    with Cons.prems(2) have "a \<noteq> last ws" by auto
    with Cons.prems(4) Cons have nt: "Some a \<noteq> tail_f (reader s)" by auto
    from Cons.prems(1) Cons have nx: "next_a (awaiters s a) = Some b" by simp
    have "collect f s (hd ws) (acc @ issued_handles (awaiters s a)) =
        Inr ((acc @ issued_handles (awaiters s a)) @ concat (map (\<lambda>a. issued_handles (awaiters s a)) ws))"
      using Cons.prems Cons f by (intro Cons.IH) auto
    with Cons f g nt nx show ?thesis by simp
  qed
qed

text \<open>The second pass runs the cleanup calls of each waiter and resumes it, front to back.\<close>

lemma drain_chain:
  assumes "linked (awaiters s) ws" and "distinct ws" and "ws \<noteq> []"
    and "head_f (reader s) = Some (hd ws)" and "tail_f (reader s) = Some (last ws)"
    and "list_all (\<lambda>a. num_reqs_a (awaiters s a) \<le> length (io_handle_a (awaiters s a))
                         \<and> num_reqs_a (awaiters s a) \<le> length (del_fn_a (awaiters s a))) ws"
    and "length ws \<le> fuel"
  shows "drain fuel s =
     Inr (concat (map (\<lambda>a. cleanup_calls (awaiters s a) @ [Resume a]) ws),
          s\<lparr>reader := (reader s)\<lparr>head_f := next_a (awaiters s (last ws))\<rparr>\<rparr>)"
  using assms
proof (induction ws arbitrary: fuel s)
  case Nil
  then show ?case by simp
next
  case (Cons a ws)
  from Cons.prems(7) obtain f where f: "fuel = Suc f" "length ws \<le> f"
    by (cases fuel) auto
  let ?s1 = "s\<lparr>reader := (reader s)\<lparr>head_f := next_a (awaiters s a)\<rparr>\<rparr>"
  from Cons.prems(6) have c: "cleanup (awaiters s a) [0..<num_reqs_a (awaiters s a)]
      = Inr (cleanup_calls (awaiters s a))"
    by (intro cleanup_calls_eq) simp_all
  show ?case
  proof (cases ws)
    case Nil
    with Cons.prems(4,5) f c show ?thesis by simp
  next
    case (Cons b rest)
    with Cons.prems(2) have "a \<noteq> last ws" by auto
    with Cons.prems(5) Cons have nt: "Some a \<noteq> tail_f (reader s)" by auto
    from Cons.prems(1) Cons have nx: "next_a (awaiters s a) = Some b" by simp
    have "drain f ?s1 =
       Inr (concat (map (\<lambda>a. cleanup_calls (awaiters ?s1 a) @ [Resume a]) ws),
          ?s1\<lparr>reader := (reader ?s1)\<lparr>head_f := next_a (awaiters ?s1 (last ws))\<rparr>\<rparr>)"
      using Cons.prems Cons f nx by (intro Cons.IH) auto
    with Cons Cons.prems(4) f c nt nx show ?thesis by simp
  qed
qed

lemma idle_reader: "idle f \<Longrightarrow> f = \<lparr>head_f = None, tail_f = None, num_reqs_f = 0\<rparr>"
  by (cases f) (simp add: idle_def)

lemma Wait_pending:
  assumes "pending s ws" and "length ws \<le> fuel"
  shows "Wait fuel s =
     Inr ((if ws = [] then []
           else (let io_handles = concat (map (\<lambda>a. issued_handles (awaiters s a)) ws)
                 in (if io_handles = [] then [] else [Poll io_handles (length io_handles), PollWait])
                    @ concat (map (\<lambda>a. cleanup_calls (awaiters s a) @ [Resume a]) ws)
                    @ [BatchSize (sum_list (map (\<lambda>a. num_reqs_a (awaiters s a)) ws))])),
          s\<lparr>reader := \<lparr>head_f = None, tail_f = None, num_reqs_f = 0\<rparr>\<rparr>)"
proof (cases "ws = []")
  case True
  with assms(1) have i: "idle (reader s)" by (simp add: pending_def)
  then have "reader s = \<lparr>head_f = None, tail_f = None, num_reqs_f = 0\<rparr>" by (rule idle_reader)
  then have "s\<lparr>reader := \<lparr>head_f = None, tail_f = None, num_reqs_f = 0\<rparr>\<rparr> = s"
    by (cases s) simp
  with True i show ?thesis by (simp add: Wait_def idle_def)
next
  case False
  with assms(1) have p: "head_f (reader s) = Some (hd ws)" "tail_f (reader s) = Some (last ws)"
        "distinct ws" "linked (awaiters s) ws"
        "num_reqs_f (reader s) = sum_list (map (\<lambda>a. num_reqs_a (awaiters s a)) ws)"
        "list_all (\<lambda>a. num_reqs_a (awaiters s a) \<le> length (io_handle_a (awaiters s a))
                         \<and> num_reqs_a (awaiters s a) \<le> length (del_fn_a (awaiters s a))) ws"
    by (simp_all add: pending_def)
  from p(6) have b: "list_all (\<lambda>a. num_reqs_a (awaiters s a) \<le> length (io_handle_a (awaiters s a))) ws"
    by (simp add: list_all_iff)
  have c: "collect fuel s (hd ws) [] = Inr ([] @ concat (map (\<lambda>a. issued_handles (awaiters s a)) ws))"
    using p(4) p(3) False p(2) b assms(2) by (rule collect_chain)
  have d: "drain fuel s =
     Inr (concat (map (\<lambda>a. cleanup_calls (awaiters s a) @ [Resume a]) ws),
          s\<lparr>reader := (reader s)\<lparr>head_f := next_a (awaiters s (last ws))\<rparr>\<rparr>)"
    using p(4) p(3) False p(1) p(2) p(6) assms(2) by (rule drain_chain)
  from False p(1) p(5) c d show ?thesis
    by (simp add: Wait_def Let_def)
qed

section \<open>The coordinator: the claims\<close>

text \<open>
  Claim C2 says that with waiters pending \<^verbatim>\<open>Wait\<close> issues exactly one poll. The poll is
  under the test \<^verbatim>\<open>io_handles.size() > 0\<close>: one waiter with one request, enqueued on a
  backend that completes the read at once and leaves the handle null, is pending, and
  \<^verbatim>\<open>Wait\<close> resumes it and records the batch size without any poll.
\<close>

theorem Wait_without_poll:
  "\<not> isl (enqueue_all sync_backend idle_state [1])
   \<and> head_f (reader (projr (enqueue_all sync_backend idle_state [1]))) = Some 1
   \<and> map_sum id fst (Wait 1 (projr (enqueue_all sync_backend idle_state [1]))) = Inr [Resume 1, BatchSize 1]"
  by code_simp

text \<open>
  Claim C2, as the code has it. From a coordinator with no waiter, enqueue the distinct
  waiters \<open>as\<close> in this order and call \<^verbatim>\<open>Wait\<close>. With no waiter enqueued, \<^verbatim>\<open>Wait\<close> returns at
  once, does nothing and leaves the state, whose count is zero, as it is; so it does in
  every state whose \<^verbatim>\<open>head_\<close> is null. Otherwise it gathers the handles that are not null
  of all the waiters, in the order of the waiters; polls them in one call when there is
  at least one, and does not poll when there is none; then, waiter after waiter in the
  order they were enqueued, makes the cleanup call of each request that has a handle
  and a cleanup function and resumes the waiter; it ends with the sample of the request
  count, and leaves \<^verbatim>\<open>head_\<close> and \<^verbatim>\<open>tail_\<close> null and the count zero.
\<close>

theorem Wait_drains_in_order:
  assumes "idle (reader s0)" and "distinct as" and "length as \<le> fuel"
  shows "(\<exists>s. enqueue_all ReadAsync s0 as = Inr s
        \<and> (as = [] \<longrightarrow> s = s0 \<and> Wait fuel s = Inr ([], s) \<and> num_reqs_f (reader s) = 0)
        \<and> Wait fuel s =
            Inr ((if as = [] then []
                  else (let io_handles = concat (map (\<lambda>a. issued_handles (awaiters s a)) as)
                        in (if io_handles = [] then [] else [Poll io_handles (length io_handles), PollWait])
                           @ concat (map (\<lambda>a. cleanup_calls (awaiters s a) @ [Resume a]) as)
                           @ [BatchSize (sum_list (map (\<lambda>a. num_reqs_a (awaiters s a)) as))])),
                 s\<lparr>reader := \<lparr>head_f = None, tail_f = None, num_reqs_f = 0\<rparr>\<rparr>))
     \<and> (\<forall>s. head_f (reader s) = None \<longrightarrow> Wait fuel s = Inr ([], s))"
proof -
  from assms(1) have "pending s0 []" by (simp add: pending_def)
  moreover from assms(2) have "distinct ([] @ as)" by simp
  ultimately obtain s where s: "enqueue_all ReadAsync s0 as = Inr s" "pending s ([] @ as)"
    using enqueue_all_pending by blast
  then have p: "pending s as" by simp
  have n: "Wait fuel s = Inr ([], s)" if "head_f (reader s) = None" for s
    using that by (simp add: Wait_def)
  have e: "s = s0 \<and> Wait fuel s = Inr ([], s) \<and> num_reqs_f (reader s) = 0" if "as = []"
    using that s(1) assms(1) n by (simp add: idle_def)
  from Wait_pending [OF p assms(3)] s(1) e n show ?thesis by blast
qed

theorem Wait_drains_in_order_witness:
  "idle (reader idle_state) \<and> distinct [2, 3 :: addr] \<and> length [2, 3 :: addr] \<le> 2
   \<and> (\<exists>s. enqueue_all async_backend idle_state [2, 3] = Inr s
         \<and> map_sum id fst (Wait 2 s) =
             Inr [Poll [20, 21, 30, 31, 32] 5, PollWait, Delete 0 20, Delete 0 21, Resume 2,
                  Delete 0 30, Delete 0 31, Delete 0 32, Resume 3, BatchSize 5])"
proof -
  have h: "idle (reader idle_state)" "distinct [2, 3 :: addr]" "length [2, 3 :: addr] \<le> 2"
    by (simp_all add: idle_def idle_state_def)
  have e: "map_sum id fst (Wait 2 (projr (enqueue_all async_backend idle_state [2, 3]))) =
             Inr [Poll [20, 21, 30, 31, 32] 5, PollWait, Delete 0 20, Delete 0 21, Resume 2,
                  Delete 0 30, Delete 0 31, Delete 0 32, Resume 3, BatchSize 5]"
    by code_simp
  from Wait_drains_in_order [OF h, of async_backend]
  obtain s where s: "enqueue_all async_backend idle_state [2, 3] = Inr s" by blast
  then have "projr (enqueue_all async_backend idle_state [2, 3]) = s" by simp
  with e s h show ?thesis by auto
qed

text \<open>
  Claim C9 on a waiter with two requests and empty vectors, enqueued on a coordinator
  with no waiter: after \<^verbatim>\<open>MultiReadAsyncImpl\<close> each of its two vectors has four elements,
  not two. \<^verbatim>\<open>resize(num_reqs_)\<close> makes the two slots the backend is given, and the
  \<^verbatim>\<open>push_back(nullptr)\<close> of every round of the loop adds one more; the lemma
  \<open>MultiReadAsyncImpl_effect\<close> gives twice the count for every waiter.
\<close>

theorem MultiReadAsyncImpl_doubles:
  "\<not> isl (MultiReadAsyncImpl async_backend idle_state 2)
   \<and> num_reqs_a (awaiters (snd (projr (MultiReadAsyncImpl async_backend idle_state 2))) 2) = 2
   \<and> io_handle_a (awaiters (snd (projr (MultiReadAsyncImpl async_backend idle_state 2))) 2)
       = [Some 20, Some 21, None, None]
   \<and> del_fn_a (awaiters (snd (projr (MultiReadAsyncImpl async_backend idle_state 2))) 2)
       = [Some 0, Some 0, None, None]"
  by code_simp

end
